theory Spec2Isabelle
  imports Main "HOL-Library.Char_ord" "HOL-Library.List_Lexorder" "HOL-Library.Multiset"
begin

section \<open>Values\<close>

text \<open>
  Strings are byte strings (UTF-8). Delays, timestamps and counters are integers
  (whole milliseconds or counts). A number that need not be whole, such as a
  temperature, is a decimal: \<open>Decimal m e\<close> is \<open>m \<times> 10^e\<close>, so that 0.2 is
  \<open>Decimal 2 (-1)\<close>. A JavaScript number is a double, and is given here by the
  decimal it prints as.
\<close>

datatype decimal = Decimal int int

datatype json =
    JNull
  | JBool bool
  | JNum int
  | JDec decimal
  | JStr string
  | JArr "json list"
  | JObj "(string \<times> json) list"

text \<open>JavaScript truthiness of a value (\<open>if (v)\<close>, \<open>v ? a : b\<close>, \<open>Boolean(v)\<close>).\<close>

fun truthy :: "json \<Rightarrow> bool" where
  "truthy JNull = False"
| "truthy (JBool b) = b"
| "truthy (JNum n) = (n \<noteq> 0)"
| "truthy (JDec (Decimal m e)) = (m \<noteq> 0)"
| "truthy (JStr s) = (s \<noteq> [])"
| "truthy (JArr _) = True"
| "truthy (JObj _) = True"

text \<open>
  Errors: one thrown with a message (by the model client, by a tool), those of
  \<open>withTimeout\<close> (utils.ts), and the two the graph library throws: when a node is
  added under the name of a state channel, and when the recursion limit is reached.
\<close>

datatype error =
    Failure string
  | TimeoutErr nat
  | AbortedErr
  | NodeNameClash string
  | GraphRecursionError nat

text \<open>The decimal digits of an integer that is not negative.\<close>

definition digit_char :: "int \<Rightarrow> char" where
  "digit_char d = char_of (48 + d)"

function dec :: "int \<Rightarrow> string" where
  "dec n = (if n < 10 then [digit_char n] else dec (n div 10) @ [digit_char (n mod 10)])"
  by pat_completeness auto
termination
  by (relation "measure nat") auto

declare dec.simps [simp del]

text \<open>
  The text of a number (\<open>Number::toString\<close>, which \<open>JSON.stringify\<close> and template
  literals use). With \<open>s\<close> the digits of the number without trailing zeros, \<open>k\<close> their
  count and \<open>n\<close> the exponent for which the number is \<open>0.s \<times> 10^n\<close>: the digits and
  zeros when \<open>k \<le> n \<le> 21\<close>, the digits around a point when \<open>0 < n \<le> 21\<close>, \<open>0.\<close>, zeros
  and the digits when \<open>-6 < n \<le> 0\<close>, and the exponent notation otherwise.
\<close>

definition strip_zeros :: "string \<Rightarrow> string" where
  "strip_zeros ds = rev (dropWhile (\<lambda>c. c = CHR ''0'') (rev ds))"

definition number_text :: "int \<Rightarrow> int \<Rightarrow> string" where
  "number_text m e =
     (if m = 0 then ''0''
      else
        let ds = dec \<bar>m\<bar>;
            s = strip_zeros ds;
            k = int (length s);
            n = int (length ds) + e
        in (if m < 0 then ''-'' else [])
           @ (if k \<le> n \<and> n \<le> 21 then s @ replicate (nat (n - k)) CHR ''0''
              else if 0 < n \<and> n \<le> 21 then take (nat n) s @ ''.'' @ drop (nat n) s
              else if - 6 < n \<and> n \<le> 0 then ''0.'' @ replicate (nat (- n)) CHR ''0'' @ s
              else (if k = 1 then s else take 1 s @ ''.'' @ drop 1 s)
                   @ ''e'' @ (if 0 \<le> n - 1 then ''+'' else ''-'') @ dec \<bar>n - 1\<bar>))"

definition num_text :: "int \<Rightarrow> string" where
  "num_text i = number_text i 0"

fun decimal_text :: "decimal \<Rightarrow> string" where
  "decimal_text (Decimal m e) = number_text m e"

text \<open>\<open>e?.message ?? String(e)\<close>: the message of an error.\<close>

fun message :: "error \<Rightarrow> string" where
  "message (Failure m) = m"
| "message (TimeoutErr ms) = ''Timeout after '' @ num_text (int ms) @ ''ms''"
| "message AbortedErr = ''Aborted''"
| "message (NodeNameClash key) =
     key @ '' is already being used as a state attribute (a.k.a. a channel), cannot also be used as a node name.''"
| "message (GraphRecursionError limit) =
     ''Recursion limit of '' @ num_text (int limit)
     @ '' reached without hitting a stop condition. You can increase the limit by setting the \"recursionLimit\" config key.''"

section \<open>utils.ts: stableStringify\<close>

text \<open>
  A JavaScript object is the list of its properties in enumeration order; its keys
  are distinct. \<open>Object.keys(input).sort()\<close> orders the keys by UTF-16 code unit. On
  the UTF-8 bytes of \<open>string\<close> that is the order of the bytes, but that a character
  beyond U+FFFF (lead bytes F0 to F4, a surrogate pair in UTF-16) comes before one
  from U+E000 to U+FFFF (lead bytes EE and EF).
\<close>

definition unit_rank :: "char \<Rightarrow> int" where
  "unit_rank c =
     (let b = of_char c :: int
      in if 240 \<le> b \<and> b \<le> 244 then b - 2
         else if b = 238 \<or> b = 239 then b + 5
         else b)"

definition code_units :: "string \<times> 'a \<Rightarrow> int list" where
  "code_units kv = map unit_rank (fst kv)"

text \<open>
  The object \<open>out\<close> that \<open>sortKeys\<close> fills key by key enumerates first its array
  indices (a key that is the decimal of an integer below \<open>2^32 - 1\<close>) in ascending
  order, then its other keys in the order in which they were assigned.
\<close>

definition is_digit :: "char \<Rightarrow> bool" where
  "is_digit c = (48 \<le> (of_char c :: int) \<and> (of_char c :: int) \<le> 57)"

definition digits_value :: "string \<Rightarrow> int" where
  "digits_value s = foldl (\<lambda>n c. 10 * n + (of_char c - 48)) 0 s"

definition array_index :: "string \<times> 'a \<Rightarrow> int option" where
  "array_index kv =
     (let k = fst kv
      in if k \<noteq> [] \<and> list_all is_digit k \<and> (k = ''0'' \<or> hd k \<noteq> CHR ''0'')
            \<and> digits_value k < 4294967295
         then Some (digits_value k) else None)"

definition enumeration :: "(string \<times> 'a) list \<Rightarrow> (string \<times> 'a) list" where
  "enumeration kvs =
     sort_key (\<lambda>kv. case array_index kv of None \<Rightarrow> 0 | Some i \<Rightarrow> i)
       (filter (\<lambda>kv. array_index kv \<noteq> None) kvs)
     @ filter (\<lambda>kv. array_index kv = None) kvs"

function sortKeys :: "json \<Rightarrow> json" where
  "sortKeys (JArr xs) = JArr (map sortKeys xs)"
| "sortKeys (JObj kvs) =
     JObj (enumeration (map (\<lambda>kv. (fst kv, sortKeys (snd kv))) (sort_key code_units kvs)))"
| "sortKeys JNull = JNull"
| "sortKeys (JBool b) = JBool b"
| "sortKeys (JNum n) = JNum n"
| "sortKeys (JDec d) = JDec d"
| "sortKeys (JStr s) = JStr s"
  by pat_completeness auto

lemma size_json_member: "(k, v) \<in> set kvs \<Longrightarrow> size v < Suc (size_list (size_prod (\<lambda>_. 0) size) kvs)"
  by (induction kvs) auto

termination sortKeys
proof (relation "measure size")
  show "wf (measure size)" by simp
next
  fix xs :: "json list" and x
  assume "x \<in> set xs"
  then show "(x, JArr xs) \<in> measure size"
    by (induction xs) auto
next
  fix kvs :: "(string \<times> json) list" and kv
  assume "kv \<in> set (sort_key code_units kvs)"
  then have "(fst kv, snd kv) \<in> set kvs" by simp
  then show "(snd kv, JObj kvs) \<in> measure size"
    using size_json_member [of "fst kv" "snd kv" kvs] by simp
qed

text \<open>\<open>JSON.stringify\<close>: the text of a value, without white space.\<close>

definition hex_char :: "nat \<Rightarrow> char" where
  "hex_char d = (if d < 10 then char_of (48 + d) else char_of (87 + d))"

definition escape_char :: "char \<Rightarrow> string" where
  "escape_char c =
     (if c = CHR ''\"'' then [CHR 0x5C, CHR ''\"'']
      else if c = CHR 0x5C then [CHR 0x5C, CHR 0x5C]
      else if c = CHR 0x08 then [CHR 0x5C, CHR ''b'']
      else if c = CHR 0x0C then [CHR 0x5C, CHR ''f'']
      else if c = CHR 0x0A then [CHR 0x5C, CHR ''n'']
      else if c = CHR 0x0D then [CHR 0x5C, CHR ''r'']
      else if c = CHR 0x09 then [CHR 0x5C, CHR ''t'']
      else if of_char c < (32 :: nat)
        then [CHR 0x5C, CHR ''u'', CHR ''0'', CHR ''0'',
              hex_char (of_char c div 16), hex_char (of_char c mod 16)]
      else [c])"

definition quote :: "string \<Rightarrow> string" where
  "quote s = [CHR ''\"''] @ concat (map escape_char s) @ [CHR ''\"'']"

fun intersperse :: "'a list \<Rightarrow> 'a list list \<Rightarrow> 'a list" where
  "intersperse sep [] = []"
| "intersperse sep [x] = x"
| "intersperse sep (x # y # ys) = x @ sep @ intersperse sep (y # ys)"

function stringify :: "json \<Rightarrow> string" where
  "stringify JNull = ''null''"
| "stringify (JBool b) = (if b then ''true'' else ''false'')"
| "stringify (JNum n) = num_text n"
| "stringify (JDec d) = decimal_text d"
| "stringify (JStr s) = quote s"
| "stringify (JArr xs) = ''['' @ intersperse '','' (map stringify xs) @ '']''"
| "stringify (JObj kvs) =
     ''{'' @ intersperse '','' (map (\<lambda>kv. quote (fst kv) @ '':'' @ stringify (snd kv)) kvs) @ ''}''"
  by pat_completeness auto

termination stringify
proof (relation "measure size")
  show "wf (measure size)" by simp
next
  fix xs :: "json list" and x
  assume "x \<in> set xs"
  then show "(x, JArr xs) \<in> measure size"
    by (induction xs) auto
next
  fix kvs :: "(string \<times> json) list" and kv
  assume "kv \<in> set kvs"
  then have "(fst kv, snd kv) \<in> set kvs" by simp
  then show "(snd kv, JObj kvs) \<in> measure size"
    using size_json_member [of "fst kv" "snd kv" kvs] by simp
qed

definition stableStringify :: "json \<Rightarrow> string" where
  "stableStringify obj = stringify (sortKeys obj)"

text \<open>cache.ts: \<open>makeCacheKey(parts)\<close>.\<close>

definition makeCacheKey :: "(string \<times> json) list \<Rightarrow> string" where
  "makeCacheKey parts = stableStringify (JObj parts)"

text \<open>
  A property whose value is \<open>undefined\<close> is left out by \<open>JSON.stringify\<close>: an
  optional value contributes a property only when it is present.
\<close>

fun opt_prop :: "string \<Rightarrow> json option \<Rightarrow> (string \<times> json) list" where
  "opt_prop k None = []"
| "opt_prop k (Some v) = [(k, v)]"

section \<open>types.ts\<close>

datatype event_kind =
    RunStart | RunEnd | NodeEnter | NodeExit | ModelCallStart | ModelCallEnd
  | ToolCallStart | ToolCallEnd | Retry | RateLimitDelay | CacheHit | CacheSet | ErrorEvent

record event =
  ev_runId :: string
  kind :: event_kind
  timestamp :: int
  data :: "(string \<times> json) list"

datatype role = System | User | Assistant | Tool

record memory_message =
  role :: role
  content :: string
  name :: "string option"
  createdAt :: "int option"

text \<open>The LangChain messages built by \<open>toLCMessages\<close>; a tool message carries its
  content, its \<open>tool_call_id\<close> and its name.\<close>

datatype lc_message =
    HumanMessage string
  | SystemMessage string
  | LCAIMessage string
  | ToolMessage string string "string option"

text \<open>A tool call returned by the model: \<open>call?.name ?? call?.tool ?? ""\<close>,
  \<open>call?.args ?? {}\<close>.\<close>

record tool_call =
  call_name :: "string option"
  call_tool :: "string option"
  call_args :: "json option"

record ai_message =
  ai_content :: string
  tool_calls :: "tool_call list"

record retry_config =
  retry_max :: "int option"
  initialDelayMs :: "int option"
  factor :: "int option"
  maxDelayMs :: "int option"

record timeout_config =
  perStepMs :: "nat option"
  totalMs :: "nat option"

record rate_limit_config =
  rpm :: "int option"
  enabled :: "bool option"

record model_params =
  model :: string
  temperature :: "decimal option"
  systemPrompt :: "string option"
  timeouts :: "timeout_config option"
  retries :: "retry_config option"
  rateLimit :: "rate_limit_config option"

text \<open>\<open>RunInput\<close>: a task string, or a task with an optional schema.\<close>

datatype run_input = TaskText string | TaskObject string "json option"

text \<open>\<open>GraphState\<close>, with the channels the nodes read or write.\<close>

record graph_state =
  runId :: string
  input :: run_input
  step :: int
  maxSteps :: int
  plan :: "string option"
  thoughts :: "string option"
  candidateAnswer :: "string option"
  isValid :: "bool option"
  finalObject :: "json option"
  startedAt :: int
  endedAt :: "int option"
  cacheHit :: bool
  usedTools :: "string list"

text \<open>A tool's schema is a Zod schema (its \<open>parse\<close>) or a JSON Schema.\<close>

datatype tool_schema = Zod "json \<Rightarrow> error + json" | JsonSchema json

record tool_def =
  tool_name :: string
  tool_schema :: tool_schema
  tool_enabled :: "bool option"
  tool_hidden :: "bool option"
  execute :: "json \<Rightarrow> error + json"

text \<open>An \<open>AbortSignal\<close>, with the time at which it is aborted, if ever.\<close>

datatype abort_signal = AbortSignal "int option"

section \<open>The world outside the orchestrator\<close>

text \<open>
  The model client is an oracle: the reply to the n-th request made of it, whatever
  the request. A text reply settles after a duration, with an error or a message;
  a structured reply likewise, with any value; a stream delivers chunks, each after
  a delay, and then ends or throws.
\<close>

record client =
  invoke_reply :: "nat \<Rightarrow> nat \<times> (error + ai_message)"
  structured_reply :: "nat \<Rightarrow> nat \<times> (error + json)"
  stream_reply :: "nat \<Rightarrow> (nat \<times> string) list \<times> error option"

datatype request =
    TextRequest "string list" "lc_message list"
  | StructuredRequest json "lc_message list"
  | StreamRequest "lc_message list"

text \<open>cache.ts: \<open>SimpleCache\<close> over an LRU cache with a capacity and a time to live
  (0: none). The entries are in order of use, the most recent first, each with the
  time it was set.\<close>

record 'v cache =
  entries :: "(string \<times> 'v \<times> int) list"
  cache_max :: nat
  cache_ttl :: nat

text \<open>
  What a library instance shares between its runs (the event bus, the memory, the
  response cache), the clock, a log of the requests made of the model and of the
  sleeps, and the limiter objects: each \<open>run()\<close> creates one, and its context
  refers to it by its address.
\<close>

record world =
  clock :: int
  events :: "event list"
  responseCache :: "ai_message cache"
  store :: "string \<Rightarrow> memory_message list option"
  requests :: "request list"
  sleeps :: "int list"
  limiters :: "nat \<Rightarrow> int option"
  next_limiter :: nat

text \<open>\<open>OrchestratorContext\<close>: what is the run's own.\<close>

record ctx =
  params :: model_params
  tools :: "tool_def list"
  limiter :: nat
  signal :: "abort_signal option"

section \<open>utils.ts: time\<close>

definition nowMs :: "world \<Rightarrow> int" where
  "nowMs w = clock w"

definition sleep :: "int \<Rightarrow> world \<Rightarrow> world" where
  "sleep ms w = w\<lparr>clock := clock w + max 0 ms, sleeps := sleeps w @ [ms]\<rparr>"

fun aborted :: "abort_signal option \<Rightarrow> int \<Rightarrow> bool" where
  "aborted None t = False"
| "aborted (Some (AbortSignal None)) t = False"
| "aborted (Some (AbortSignal (Some a))) t = (a \<le> t)"

definition timer_at :: "int \<Rightarrow> nat option \<Rightarrow> (error \<times> int) option" where
  "timer_at now ms =
     (case ms of None \<Rightarrow> None
      | Some m \<Rightarrow> if m = 0 then None else Some (TimeoutErr m, now + int m))"

definition abort_at :: "abort_signal option \<Rightarrow> (error \<times> int) option" where
  "abort_at sig =
     (case sig of Some (AbortSignal (Some a)) \<Rightarrow> Some (AbortedErr, a) | _ \<Rightarrow> None)"

definition earlier :: "(error \<times> int) option \<Rightarrow> (error \<times> int) option \<Rightarrow> (error \<times> int) option" where
  "earlier a b =
     (case a of None \<Rightarrow> b
      | Some x \<Rightarrow> (case b of None \<Rightarrow> a | Some y \<Rightarrow> if snd y < snd x then b else a))"

text \<open>
  \<open>withTimeout(promise, ms, signal)\<close>. The promise is given by the duration after
  which it settles and by what it settles with. With no deadline and no signal the
  promise is returned; an aborted signal rejects at once; otherwise the timer, the
  abort and the promise race (the promise wins a tie).
\<close>

definition withTimeout ::
  "nat \<times> (error + 'a) \<Rightarrow> nat option \<Rightarrow> abort_signal option \<Rightarrow> world \<Rightarrow> (error + 'a) \<times> world" where
  "withTimeout p ms sig w =
     (let done_at = clock w + int (fst p) in
      if (ms = None \<or> ms = Some 0) \<and> sig = None then (snd p, w\<lparr>clock := done_at\<rparr>)
      else if aborted sig (clock w) then (Inl AbortedErr, w)
      else (case earlier (timer_at (clock w) ms) (abort_at sig) of
              None \<Rightarrow> (snd p, w\<lparr>clock := done_at\<rparr>)
            | Some (e, t) \<Rightarrow>
                if t < done_at then (Inl e, w\<lparr>clock := t\<rparr>)
                else (snd p, w\<lparr>clock := done_at\<rparr>)))"

section \<open>eventBus.ts\<close>

definition emit :: "event \<Rightarrow> world \<Rightarrow> world" where
  "emit e w = w\<lparr>events := events w @ [e]\<rparr>"

section \<open>cache.ts\<close>

definition stale :: "'v cache \<Rightarrow> int \<Rightarrow> int \<Rightarrow> bool" where
  "stale c now start = (cache_ttl c \<noteq> 0 \<and> now - start > int (cache_ttl c))"

definition cache_get :: "'v cache \<Rightarrow> int \<Rightarrow> string \<Rightarrow> 'v option \<times> 'v cache" where
  "cache_get c now k =
     (case map_of (entries c) k of
        None \<Rightarrow> (None, c)
      | Some (v, start) \<Rightarrow>
          if stale c now start
          then (None, c\<lparr>entries := filter (\<lambda>e. fst e \<noteq> k) (entries c)\<rparr>)
          else (Some v, c\<lparr>entries := (k, v, start) # filter (\<lambda>e. fst e \<noteq> k) (entries c)\<rparr>))"

definition cache_set :: "'v cache \<Rightarrow> int \<Rightarrow> string \<Rightarrow> 'v \<Rightarrow> 'v cache" where
  "cache_set c now k v =
     (let es = (k, v, now) # filter (\<lambda>e. fst e \<noteq> k) (entries c)
      in c\<lparr>entries := (if cache_max c = 0 then es else take (cache_max c) es)\<rparr>)"

section \<open>gemini.ts: the model client\<close>

text \<open>\<open>invokeText({model, messages})\<close>: the request is made (and logged); the reply
  is the promise. A model is given by the names of the tools bound to it.\<close>

definition invokeText ::
  "client \<Rightarrow> string list \<Rightarrow> lc_message list \<Rightarrow> world \<Rightarrow> (nat \<times> (error + ai_message)) \<times> world" where
  "invokeText env bound messages w =
     (invoke_reply env (length (requests w)),
      w\<lparr>requests := requests w @ [TextRequest bound messages]\<rparr>)"

section \<open>graph.ts: the policy around a model call\<close>

definition retries_max :: "ctx \<Rightarrow> int" where
  "retries_max c =
     (case retries (params c) of None \<Rightarrow> 3
      | Some r \<Rightarrow> (case retry_max r of None \<Rightarrow> 3 | Some m \<Rightarrow> m))"

definition retries_initial :: "ctx \<Rightarrow> int" where
  "retries_initial c =
     (case retries (params c) of None \<Rightarrow> 500
      | Some r \<Rightarrow> (case initialDelayMs r of None \<Rightarrow> 500 | Some m \<Rightarrow> m))"

definition retries_factor :: "ctx \<Rightarrow> int" where
  "retries_factor c =
     (case retries (params c) of None \<Rightarrow> 2
      | Some r \<Rightarrow> (case factor r of None \<Rightarrow> 2 | Some m \<Rightarrow> m))"

definition retries_maxDelay :: "ctx \<Rightarrow> int" where
  "retries_maxDelay c =
     (case retries (params c) of None \<Rightarrow> 10000
      | Some r \<Rightarrow> (case maxDelayMs r of None \<Rightarrow> 10000 | Some m \<Rightarrow> m))"

definition retry_event :: "graph_state \<Rightarrow> int \<Rightarrow> error \<Rightarrow> world \<Rightarrow> event" where
  "retry_event state attempt e w =
     \<lparr>ev_runId = runId state, kind = Retry, timestamp = nowMs w,
      data = [(''attempt'', JNum attempt), (''error'', JStr (message e))]\<rparr>"

text \<open>The \<open>while (true)\<close> of \<open>retryAsync\<close>, with its variables \<open>attempt\<close> and
  \<open>delay\<close>.\<close>

function retry_loop ::
  "ctx \<Rightarrow> graph_state \<Rightarrow> (world \<Rightarrow> (error + 'a) \<times> world) \<Rightarrow> int \<Rightarrow> int \<Rightarrow> world
     \<Rightarrow> (error + 'a) \<times> world" where
  "retry_loop c state fn attempt delay w =
     (case fn w of
        (Inr v, w1) \<Rightarrow> (Inr v, w1)
      | (Inl e, w1) \<Rightarrow>
          if attempt + 1 \<ge> retries_max c then (Inl e, w1)
          else retry_loop c state fn (attempt + 1) (delay * retries_factor c)
                 (sleep (min delay (retries_maxDelay c))
                    (emit (retry_event state (attempt + 1) e w1) w1)))"
  by pat_completeness auto
termination
  by (relation "measure (\<lambda>(c, state, fn, attempt, delay, w). nat (retries_max c - attempt))") auto

declare retry_loop.simps [simp del]

definition retryAsync ::
  "(world \<Rightarrow> (error + 'a) \<times> world) \<Rightarrow> ctx \<Rightarrow> graph_state \<Rightarrow> world \<Rightarrow> (error + 'a) \<times> world" where
  "retryAsync fn c state w = retry_loop c state fn 0 (retries_initial c) w"

definition ceil_div :: "int \<Rightarrow> int \<Rightarrow> int" where
  "ceil_div a b = - ((- a) div b)"

definition delay_event :: "graph_state \<Rightarrow> int \<Rightarrow> world \<Rightarrow> event" where
  "delay_event state wait w =
     \<lparr>ev_runId = runId state, kind = RateLimitDelay, timestamp = nowMs w,
      data = [(''waitMs'', JNum wait)]\<rparr>"

definition ensureRateLimit :: "ctx \<Rightarrow> graph_state \<Rightarrow> world \<Rightarrow> world" where
  "ensureRateLimit c state w =
     (case rateLimit (params c) of
        None \<Rightarrow> w
      | Some rl \<Rightarrow>
          if enabled rl \<noteq> Some True then w
          else (case rpm rl of
                  None \<Rightarrow> w
                | Some r \<Rightarrow>
                    if r \<le> 0 then w
                    else
                      let minIntervalMs = ceil_div 60000 r;
                          now = nowMs w;
                          last = (case limiters w (limiter c) of None \<Rightarrow> 0 | Some t \<Rightarrow> t);
                          wait = max 0 (minIntervalMs - (now - last));
                          w1 = (if wait > 0 then sleep wait (emit (delay_event state wait w) w)
                                else w)
                      in w1\<lparr>limiters := (limiters w1)(limiter c := Some (nowMs w1))\<rparr>))"

fun lc_type :: "lc_message \<Rightarrow> string" where
  "lc_type (HumanMessage _) = ''human''"
| "lc_type (SystemMessage _) = ''system''"
| "lc_type (LCAIMessage _) = ''ai''"
| "lc_type (ToolMessage _ _ _) = ''tool''"

fun lc_content :: "lc_message \<Rightarrow> string" where
  "lc_content (HumanMessage s) = s"
| "lc_content (SystemMessage s) = s"
| "lc_content (LCAIMessage s) = s"
| "lc_content (ToolMessage s _ _) = s"

fun lc_name :: "lc_message \<Rightarrow> string option" where
  "lc_name (ToolMessage _ _ n) = n"
| "lc_name _ = None"

definition key_message :: "lc_message \<Rightarrow> json" where
  "key_message m =
     JObj ([(''_type'', JStr (lc_type m)), (''content'', JStr (lc_content m))]
           @ opt_prop ''name'' (map_option JStr (lc_name m)))"

text \<open>The object \<open>callModelTextRaw\<close> passes to \<open>makeCacheKey\<close>.\<close>

definition key_parts ::
  "string \<Rightarrow> string \<Rightarrow> decimal option \<Rightarrow> lc_message list \<Rightarrow> (string \<times> json) list" where
  "key_parts tag mdl temp messages =
     [(''tag'', JStr tag), (''model'', JStr mdl)]
     @ opt_prop ''temperature'' (map_option JDec temp)
     @ [(''messages'', JArr (map key_message messages))]"

definition request_key :: "ctx \<Rightarrow> string option \<Rightarrow> lc_message list \<Rightarrow> string" where
  "request_key c cacheTag messages =
     makeCacheKey
       (key_parts (case cacheTag of None \<Rightarrow> ''text'' | Some t \<Rightarrow> t)
          (model (params c)) (temperature (params c)) messages)"

text \<open>The text the cache key is to be: the serialization of the tag, the model, the
  temperature and the messages, written out.\<close>

definition message_text :: "lc_message \<Rightarrow> string" where
  "message_text m =
     ''{\"_type\":'' @ quote (lc_type m) @ '',\"content\":'' @ quote (lc_content m)
     @ (case lc_name m of None \<Rightarrow> [] | Some n \<Rightarrow> '',\"name\":'' @ quote n) @ ''}''"

definition key_text :: "string \<Rightarrow> string \<Rightarrow> decimal option \<Rightarrow> lc_message list \<Rightarrow> string" where
  "key_text tag mdl temp messages =
     ''{\"messages\":['' @ intersperse '','' (map message_text messages)
     @ ''],\"model\":'' @ quote mdl @ '',\"tag\":'' @ quote tag
     @ (case temp of None \<Rightarrow> [] | Some d \<Rightarrow> '',\"temperature\":'' @ decimal_text d) @ ''}''"

definition hit_event :: "graph_state \<Rightarrow> string \<Rightarrow> world \<Rightarrow> event" where
  "hit_event state cacheKey w =
     \<lparr>ev_runId = runId state, kind = CacheHit, timestamp = nowMs w,
      data = [(''key'', JStr cacheKey)]\<rparr>"

definition call_end_event :: "graph_state \<Rightarrow> world \<Rightarrow> event" where
  "call_end_event state w =
     \<lparr>ev_runId = runId state, kind = ModelCallEnd, timestamp = nowMs w,
      data = [(''node'', JStr ''model.invoke''), (''cached'', JBool False)]\<rparr>"

text \<open>The closure \<open>() => withTimeout(invokeText({model, messages}), perStepMs, ctx.signal)\<close>
  that \<open>callModelTextRaw\<close> hands to \<open>retryAsync\<close>.\<close>

definition perStep :: "ctx \<Rightarrow> nat option" where
  "perStep c = (case timeouts (params c) of None \<Rightarrow> None | Some t \<Rightarrow> perStepMs t)"

definition timedInvoke ::
  "client \<Rightarrow> ctx \<Rightarrow> string list \<Rightarrow> lc_message list \<Rightarrow> world \<Rightarrow> (error + ai_message) \<times> world" where
  "timedInvoke env c bound messages w =
     (case invokeText env bound messages w of
        (p, w') \<Rightarrow> withTimeout p (perStep c) (signal c) w')"

definition callModelTextRaw ::
  "client \<Rightarrow> ctx \<Rightarrow> string list \<Rightarrow> lc_message list \<Rightarrow> graph_state \<Rightarrow> string option \<Rightarrow> world
     \<Rightarrow> (error + ai_message \<times> bool) \<times> world" where
  "callModelTextRaw env c bound messages state cacheTag w =
     (let cacheKey = request_key c cacheTag messages;
          looked = cache_get (responseCache w) (nowMs w) cacheKey;
          w0 = w\<lparr>responseCache := snd looked\<rparr>
      in case fst looked of
           Some cached \<Rightarrow> (Inr (cached, True), emit (hit_event state cacheKey w0) w0)
         | None \<Rightarrow>
             let w1 = ensureRateLimit c state w0
             in case retryAsync (timedInvoke env c bound messages) c state w1 of
                  (Inl e, w2) \<Rightarrow> (Inl e, w2)
                | (Inr ai, w2) \<Rightarrow>
                    let w3 = w2\<lparr>responseCache := cache_set (responseCache w2) (nowMs w2) cacheKey ai\<rparr>
                    in (Inr (ai, False), emit (call_end_event state w3) w3))"

text \<open>\<open>callModelText\<close>: the same, on a fresh model with no tool bound.\<close>

definition callModelText ::
  "client \<Rightarrow> ctx \<Rightarrow> lc_message list \<Rightarrow> graph_state \<Rightarrow> string option \<Rightarrow> world
     \<Rightarrow> (error + ai_message \<times> bool) \<times> world" where
  "callModelText env c messages state cacheTag w =
     callModelTextRaw env c [] messages state cacheTag w"

section \<open>Observations\<close>

text \<open>What a computation added to the event log, to the sleeps and to the requests.\<close>

definition new_events :: "world \<Rightarrow> world \<Rightarrow> event list" where
  "new_events w w' = drop (length (events w)) (events w')"

definition new_sleeps :: "world \<Rightarrow> world \<Rightarrow> int list" where
  "new_sleeps w w' = drop (length (sleeps w)) (sleeps w')"

definition new_requests :: "world \<Rightarrow> world \<Rightarrow> request list" where
  "new_requests w w' = drop (length (requests w)) (requests w')"

definition of_kind :: "event_kind \<Rightarrow> event list \<Rightarrow> event list" where
  "of_kind k evs = filter (\<lambda>e. kind e = k) evs"

definition retry_data :: "int \<Rightarrow> error \<Rightarrow> (string \<times> json) list" where
  "retry_data attempt e = [(''attempt'', JNum attempt), (''error'', JStr (message e))]"

text \<open>Two values that differ only in the order of the properties of their objects,
  at any depth.\<close>

inductive same_props :: "json \<Rightarrow> json \<Rightarrow> bool" where
  sp_null: "same_props JNull JNull"
| sp_bool: "same_props (JBool b) (JBool b)"
| sp_num: "same_props (JNum n) (JNum n)"
| sp_dec: "same_props (JDec d) (JDec d)"
| sp_str: "same_props (JStr s) (JStr s)"
| sp_arr: "list_all2 same_props xs ys \<Longrightarrow> same_props (JArr xs) (JArr ys)"
| sp_obj: "list_all2 (\<lambda>p q. fst p = fst q \<and> same_props (snd p) (snd q)) kvs kvs1
     \<Longrightarrow> mset kvs1 = mset kvs2 \<Longrightarrow> distinct (map fst kvs)
     \<Longrightarrow> same_props (JObj kvs) (JObj kvs2)"

section \<open>String helpers\<close>

text \<open>
  \<open>String.prototype.trim\<close>: the white space and line terminators of ECMAScript, in
  UTF-8 (U+0009 to U+000D, U+0020, U+00A0, U+1680, U+2000 to U+200A, U+2028, U+2029,
  U+202F, U+205F, U+3000, U+FEFF).
\<close>

definition white_space :: "string list" where
  "white_space =
     [[CHR 0x09], [CHR 0x0A], [CHR 0x0B], [CHR 0x0C], [CHR 0x0D], [CHR 0x20],
      [CHR 0xC2, CHR 0xA0], [CHR 0xE1, CHR 0x9A, CHR 0x80]]
     @ map (\<lambda>i. [CHR 0xE2, CHR 0x80, char_of (128 + i)]) [0..<11]
     @ [[CHR 0xE2, CHR 0x80, CHR 0xA8], [CHR 0xE2, CHR 0x80, CHR 0xA9],
        [CHR 0xE2, CHR 0x80, CHR 0xAF], [CHR 0xE2, CHR 0x81, CHR 0x9F],
        [CHR 0xE3, CHR 0x80, CHR 0x80], [CHR 0xEF, CHR 0xBB, CHR 0xBF]]"

function strip :: "string list \<Rightarrow> string \<Rightarrow> string" where
  "strip ps s =
     (case find (\<lambda>p. p \<noteq> [] \<and> take (length p) s = p) ps of
        None \<Rightarrow> s
      | Some p \<Rightarrow> strip ps (drop (length p) s))"
  by pat_completeness auto
termination
proof (relation "measure (\<lambda>(ps, s). length s)")
  show "wf (measure (\<lambda>(ps, s). length s))" by simp
next
  fix ps :: "string list" and s p :: string
  assume "find (\<lambda>p. p \<noteq> [] \<and> take (length p) s = p) ps = Some p"
  then have p: "p \<noteq> []" "take (length p) s = p"
    by (auto simp: find_Some_iff)
  have "0 < length p" using p(1) by simp
  moreover have "length (take (length p) s) = length p"
    using p(2) by simp
  then have "length p \<le> length s" by simp
  ultimately show "((ps, drop (length p) s), (ps, s)) \<in> measure (\<lambda>(ps, s). length s)"
    by (cases p) auto
qed

declare strip.simps [simp del]

definition trim :: "string \<Rightarrow> string" where
  "trim s = rev (strip (map rev white_space) (rev (strip white_space s)))"

text \<open>\<open>lines.join("\n")\<close>.\<close>

definition join_lines :: "string list \<Rightarrow> string" where
  "join_lines ls = intersperse [CHR 0x0A] ls"

text \<open>\<open>Array.from(new Set(xs))\<close>: the first occurrence of each element, in order.\<close>

fun unique_from :: "'a list \<Rightarrow> 'a list \<Rightarrow> 'a list" where
  "unique_from seen [] = []"
| "unique_from seen (x # xs) =
     (if x \<in> set seen then unique_from seen xs else x # unique_from (x # seen) xs)"

definition unique :: "'a list \<Rightarrow> 'a list" where
  "unique xs = unique_from [] xs"

section \<open>The string literals\<close>

text \<open>
  The instructions to the model in graph.ts, tools.ts and run.ts are Chinese text.
  They are parameters here: the lines of \<open>buildSystemPrompt\<close>, the lines each phase
  adds, and the prefix of the message for a tool that is not registered. Nothing
  below depends on what they say.
\<close>

record literals =
  system_lines :: "string list"
  plan_lines :: "string list"
  task_prefix :: string
  act_lines :: "string list"
  reflect_lines :: "string list"
  reflect_ask :: "string list"
  validate_lines :: "string list"
  validate_ask :: string
  unregistered :: string
  stream_plan_lines :: "string list"
  summarize_lines :: "string list"

section \<open>memory/inmemory.ts\<close>

text \<open>The default memory, with \<open>maxKeep\<close> 200. (A custom adapter is outside the model.)\<close>

definition maxKeep :: nat where
  "maxKeep = 200"

definition slice_last :: "nat \<Rightarrow> 'a list \<Rightarrow> 'a list" where
  "slice_last n xs = drop (length xs - n) xs"

definition getHistory :: "world \<Rightarrow> string \<Rightarrow> memory_message list" where
  "getHistory w rid = (case store w rid of None \<Rightarrow> [] | Some arr \<Rightarrow> slice_last maxKeep arr)"

definition stamp :: "int \<Rightarrow> memory_message \<Rightarrow> memory_message" where
  "stamp now m = m\<lparr>createdAt := (case createdAt m of None \<Rightarrow> Some now | Some t \<Rightarrow> Some t)\<rparr>"

definition memory_append :: "string \<Rightarrow> memory_message list \<Rightarrow> world \<Rightarrow> world" where
  "memory_append rid messages w =
     (let arr = (case store w rid of None \<Rightarrow> [] | Some a \<Rightarrow> a) @ map (stamp (nowMs w)) messages
      in w\<lparr>store := (store w)(rid \<mapsto> (if length arr > maxKeep then slice_last maxKeep arr else arr))\<rparr>)"

section \<open>gemini.ts: messages and structured output\<close>

fun to_lc :: "memory_message \<Rightarrow> lc_message" where
  "to_lc m =
     (case role m of
        User \<Rightarrow> HumanMessage (content m)
      | Assistant \<Rightarrow> LCAIMessage (content m)
      | Tool \<Rightarrow> ToolMessage (content m) (case name m of None \<Rightarrow> ''tool'' | Some n \<Rightarrow> n) (name m)
      | System \<Rightarrow> SystemMessage (content m))"

definition toLCMessages :: "string option \<Rightarrow> memory_message list \<Rightarrow> lc_message list" where
  "toLCMessages sp history =
     (case sp of
        None \<Rightarrow> []
      | Some s \<Rightarrow> if s \<noteq> [] \<and> trim s \<noteq> [] then [SystemMessage s] else [])
     @ map to_lc history"

text \<open>\<open>invokeWithStructuredOutput\<close>: one request, on a model with no tool bound; the
  value comes back as it is, object or not.\<close>

definition invokeWithStructuredOutput ::
  "client \<Rightarrow> lc_message list \<Rightarrow> json \<Rightarrow> world \<Rightarrow> (error + json) \<times> world" where
  "invokeWithStructuredOutput env messages schema w =
     (let reply = structured_reply env (length (requests w))
      in (snd reply,
          w\<lparr>requests := requests w @ [StructuredRequest schema messages],
            clock := clock w + int (fst reply)\<rparr>))"

section \<open>tools.ts\<close>

definition usable :: "tool_def \<Rightarrow> bool" where
  "usable t = (\<not> (tool_enabled t = Some False \<or> tool_hidden t = Some True))"

text \<open>\<open>buildLCTools\<close> and \<open>bindToolsToModel\<close>: the names of the tools bound to the model.\<close>

definition buildLCTools :: "tool_def list \<Rightarrow> string list" where
  "buildLCTools ts = map tool_name (filter usable ts)"

text \<open>The \<open>toolMap\<close> of \<open>executeToolCalls\<close>: a later tool replaces an earlier one of
  the same name.\<close>

fun toolMap :: "tool_def list \<Rightarrow> string \<Rightarrow> tool_def option" where
  "toolMap [] = Map.empty"
| "toolMap (t # ts) =
     (if usable t then (\<lambda>n. case toolMap ts n of Some d \<Rightarrow> Some d
                              | None \<Rightarrow> if n = tool_name t then Some t else None)
      else toolMap ts)"

fun ensureZod :: "tool_schema \<Rightarrow> json \<Rightarrow> error + json" where
  "ensureZod (Zod parse) = parse"
| "ensureZod (JsonSchema _) = Inr"

definition error_payload :: "string \<Rightarrow> string" where
  "error_payload msg = stringify (JObj [(''error'', JStr msg)])"

definition tool_message :: "string \<Rightarrow> string \<Rightarrow> memory_message" where
  "tool_message toolName text = \<lparr>role = Tool, content = text, name = Some toolName, createdAt = None\<rparr>"

definition toolName_of :: "tool_call \<Rightarrow> string" where
  "toolName_of call =
     (case call_name call of Some n \<Rightarrow> n
      | None \<Rightarrow> (case call_tool call of Some n \<Rightarrow> n | None \<Rightarrow> []))"

text \<open>\<open>call?.args ?? {}\<close>: the empty object when the arguments are missing or \<open>null\<close>.\<close>

definition args_of :: "tool_call \<Rightarrow> json" where
  "args_of call =
     (case call_args call of
        None \<Rightarrow> JObj []
      | Some a \<Rightarrow> if a = JNull then JObj [] else a)"

text \<open>The body of the loop over the calls: one tool message for each call.\<close>

definition execute_call :: "literals \<Rightarrow> tool_def list \<Rightarrow> tool_call \<Rightarrow> memory_message" where
  "execute_call lit ts call =
     (let toolName = toolName_of call;
          args = args_of call
      in case toolMap ts toolName of
           None \<Rightarrow> tool_message toolName (error_payload (unregistered lit @ toolName))
         | Some d \<Rightarrow>
             (case ensureZod (tool_schema d) args of
                Inl e \<Rightarrow> tool_message toolName (error_payload (message e))
              | Inr parsed \<Rightarrow>
                  (case execute d parsed of
                     Inl e \<Rightarrow> tool_message toolName (error_payload (message e))
                   | Inr result \<Rightarrow> tool_message toolName (stringify result))))"

definition executeToolCalls :: "literals \<Rightarrow> ai_message \<Rightarrow> tool_def list \<Rightarrow> memory_message list" where
  "executeToolCalls lit aiMessage ts = map (execute_call lit ts) (tool_calls aiMessage)"

section \<open>graph.ts: the nodes\<close>

definition node_event :: "event_kind \<Rightarrow> string \<Rightarrow> graph_state \<Rightarrow> (string \<times> json) list \<Rightarrow> world \<Rightarrow> event" where
  "node_event k nm state extra w =
     \<lparr>ev_runId = runId state, kind = k, timestamp = nowMs w,
      data = [(''node'', JStr nm), (''step'', JNum (step state))] @ extra\<rparr>"

definition beforeNode :: "string \<Rightarrow> ctx \<Rightarrow> graph_state \<Rightarrow> world \<Rightarrow> world" where
  "beforeNode nm c state w = emit (node_event NodeEnter nm state [] w) w"

definition afterNode :: "string \<Rightarrow> ctx \<Rightarrow> graph_state \<Rightarrow> (string \<times> json) list \<Rightarrow> world \<Rightarrow> world" where
  "afterNode nm c state extra w = emit (node_event NodeExit nm state extra w) w"

definition buildSystemPrompt :: "literals \<Rightarrow> string option \<Rightarrow> string" where
  "buildSystemPrompt lit base =
     join_lines (filter (\<lambda>l. l \<noteq> [])
       (system_lines lit @ [case base of None \<Rightarrow> [] | Some b \<Rightarrow> b]))"

fun normalizeTask :: "run_input \<Rightarrow> string" where
  "normalizeTask (TaskText s) = s"
| "normalizeTask (TaskObject task _) = task"

fun extractSchemaFromInput :: "run_input \<Rightarrow> json option" where
  "extractSchemaFromInput (TaskText _) = None"
| "extractSchemaFromInput (TaskObject _ schema) = schema"

text \<open>\<open>[ctx.params.systemPrompt ?? "", ...lines].join("\n")\<close>.\<close>

definition with_system_prompt :: "ctx \<Rightarrow> string list \<Rightarrow> string" where
  "with_system_prompt c ls =
     join_lines ((case systemPrompt (params c) of None \<Rightarrow> [] | Some s \<Rightarrow> s) # ls)"

definition user_message :: "string \<Rightarrow> memory_message" where
  "user_message s = \<lparr>role = User, content = s, name = None, createdAt = None\<rparr>"

definition assistant_message :: "string \<Rightarrow> memory_message" where
  "assistant_message s = \<lparr>role = Assistant, content = s, name = None, createdAt = None\<rparr>"

definition plan_node ::
  "literals \<Rightarrow> client \<Rightarrow> ctx \<Rightarrow> graph_state \<Rightarrow> world \<Rightarrow> (error + graph_state) \<times> world" where
  "plan_node lit env c state w =
     (let w1 = beforeNode ''plan'' c state w;
          system = buildSystemPrompt lit (systemPrompt (params c));
          task = normalizeTask (input state);
          messages = toLCMessages (Some system) (getHistory w1 (runId state))
                     @ [HumanMessage (join_lines (plan_lines lit @ [task_prefix lit @ task]))]
      in case callModelText env c messages state (Some ''plan'') w1 of
           (Inl e, w2) \<Rightarrow> (Inl e, w2)
         | (Inr (ai, fromCache), w2) \<Rightarrow>
             let pl = ai_content ai;
                 w3 = memory_append (runId state) [user_message task, assistant_message pl] w2;
                 w4 = afterNode ''plan'' c state
                        [(''plan'', JStr pl), (''fromCache'', JBool fromCache)] w3
             in (Inr (state\<lparr>plan := Some pl, cacheHit := (cacheHit state \<or> fromCache)\<rparr>), w4))"

definition call_json :: "tool_call \<Rightarrow> json" where
  "call_json call =
     JObj (opt_prop ''name'' (map_option JStr (call_name call))
           @ opt_prop ''tool'' (map_option JStr (call_tool call))
           @ opt_prop ''args'' (call_args call))"

text \<open>\<open>toolMessages.map((m) => m.name!).filter(Boolean)\<close>.\<close>

definition names_of :: "memory_message list \<Rightarrow> string list" where
  "names_of ms = filter (\<lambda>n. n \<noteq> []) (map (\<lambda>m. case name m of None \<Rightarrow> [] | Some n \<Rightarrow> n) ms)"

text \<open>The two model calls of \<open>act\<close>: the decision, on the model with the tools bound,
  and the candidate answer, on a model with none.\<close>

definition act_system :: "literals \<Rightarrow> ctx \<Rightarrow> string" where
  "act_system lit c = buildSystemPrompt lit (Some (with_system_prompt c (act_lines lit)))"

definition decide ::
  "literals \<Rightarrow> client \<Rightarrow> ctx \<Rightarrow> graph_state \<Rightarrow> world \<Rightarrow> (error + ai_message \<times> bool) \<times> world" where
  "decide lit env c state w =
     callModelTextRaw env c (buildLCTools (tools c))
       (toLCMessages (Some (act_system lit c)) (getHistory w (runId state)))
       state (Some ''act.decide'') w"

definition summarize ::
  "literals \<Rightarrow> client \<Rightarrow> ctx \<Rightarrow> graph_state \<Rightarrow> world \<Rightarrow> (error + ai_message \<times> bool) \<times> world" where
  "summarize lit env c state w =
     callModelText env c
       (toLCMessages (Some (act_system lit c)) (getHistory w (runId state)))
       state (Some ''act.summarize'') w"

definition act_node ::
  "literals \<Rightarrow> client \<Rightarrow> ctx \<Rightarrow> graph_state \<Rightarrow> world \<Rightarrow> (error + graph_state) \<times> world" where
  "act_node lit env c state w =
     (case decide lit env c state (beforeNode ''act'' c state w) of
        (Inl e, w2) \<Rightarrow> (Inl e, w2)
      | (Inr (ai1, _), w2) \<Rightarrow>
          let toolMessages = executeToolCalls lit ai1 (tools c);
              used = (if toolMessages \<noteq> [] then names_of toolMessages else []);
              w3 = (if toolMessages \<noteq> [] then memory_append (runId state) toolMessages w2
                    else w2)
          in case summarize lit env c state w3 of
               (Inl e, w4) \<Rightarrow> (Inl e, w4)
             | (Inr (ai, fromCache), w4) \<Rightarrow>
                 let candidate = ai_content ai;
                     w5 = memory_append (runId state) [assistant_message candidate] w4;
                     w6 = afterNode ''act'' c state
                            [(''toolCalls'', JArr (map call_json (tool_calls ai1))),
                             (''usedTools'', JArr (map JStr used)),
                             (''candidate'', JStr candidate)] w5
                 in (Inr (state\<lparr>candidateAnswer := Some candidate,
                                 usedTools := usedTools state @ used,
                                 step := step state + 1,
                                 cacheHit := (cacheHit state \<or> fromCache)\<rparr>), w6))"

definition reflect_node ::
  "literals \<Rightarrow> client \<Rightarrow> ctx \<Rightarrow> graph_state \<Rightarrow> world \<Rightarrow> (error + graph_state) \<times> world" where
  "reflect_node lit env c state w =
     (let w1 = beforeNode ''reflect'' c state w;
          system = buildSystemPrompt lit (Some (with_system_prompt c (reflect_lines lit)));
          messages = toLCMessages (Some system) (getHistory w1 (runId state))
                     @ [HumanMessage (join_lines (reflect_ask lit))]
      in case callModelText env c messages state (Some ''reflect'') w1 of
           (Inl e, w2) \<Rightarrow> (Inl e, w2)
         | (Inr (ai, fromCache), w2) \<Rightarrow>
             let th = ai_content ai;
                 w3 = afterNode ''reflect'' c state [(''thoughts'', JStr th)] w2
             in (Inr (state\<lparr>thoughts := Some th, cacheHit := (cacheHit state \<or> fromCache)\<rparr>), w3))"

text \<open>\<open>if (schema)\<close>: a schema was declared when the input carries a truthy one.\<close>

definition declared_schema :: "run_input \<Rightarrow> json option" where
  "declared_schema inp =
     (case extractSchemaFromInput inp of
        None \<Rightarrow> None
      | Some s \<Rightarrow> if truthy s then Some s else None)"

text \<open>\<open>Boolean(state.candidateAnswer && state.candidateAnswer.trim().length > 0)\<close>.\<close>

definition nonblank :: "string option \<Rightarrow> bool" where
  "nonblank cand = (case cand of None \<Rightarrow> False | Some s \<Rightarrow> s \<noteq> [] \<and> trim s \<noteq> [])"

definition validate_node ::
  "literals \<Rightarrow> client \<Rightarrow> ctx \<Rightarrow> graph_state \<Rightarrow> world \<Rightarrow> (error + graph_state) \<times> world" where
  "validate_node lit env c state w =
     (let w1 = beforeNode ''validate'' c state w
      in case declared_schema (input state) of
           Some schema \<Rightarrow>
             let system = buildSystemPrompt lit (Some (with_system_prompt c (validate_lines lit)));
                 messages = toLCMessages (Some system) (getHistory w1 (runId state))
                            @ [HumanMessage (validate_ask lit)]
             in (case invokeWithStructuredOutput env messages schema w1 of
                   (Inl e, w2) \<Rightarrow> (Inl e, w2)
                 | (Inr obj, w2) \<Rightarrow>
                     let w3 = afterNode ''validate'' c state
                                [(''isValid'', JBool True), (''hasObject'', JBool (truthy obj))] w2
                     in (Inr (state\<lparr>isValid := Some True, finalObject := Some obj\<rparr>), w3))
         | None \<Rightarrow>
             let valid = nonblank (candidateAnswer state);
                 w2 = afterNode ''validate'' c state
                        [(''isValid'', JBool valid), (''hasObject'', JBool False)] w1
             in (Inr (state\<lparr>isValid := Some valid\<rparr>), w2))"

definition converge_node ::
  "literals \<Rightarrow> client \<Rightarrow> ctx \<Rightarrow> graph_state \<Rightarrow> world \<Rightarrow> (error + graph_state) \<times> world" where
  "converge_node lit env c state w =
     (let w1 = beforeNode ''converge'' c state w;
          ended = nowMs w1;
          w2 = afterNode ''converge'' c state [(''endedAt'', JNum ended)] w1
      in (Inr (state\<lparr>endedAt := Some ended\<rparr>), w2))"

section \<open>graph.ts: the edges\<close>

datatype node = Plan | Act | Reflect | Validate | Converge

fun node_name :: "node \<Rightarrow> string" where
  "node_name Plan = ''plan''"
| "node_name Act = ''act''"
| "node_name Reflect = ''reflect''"
| "node_name Validate = ''validate''"
| "node_name Converge = ''converge''"

fun run_node ::
  "literals \<Rightarrow> client \<Rightarrow> ctx \<Rightarrow> node \<Rightarrow> graph_state \<Rightarrow> world \<Rightarrow> (error + graph_state) \<times> world" where
  "run_node lit env c Plan = plan_node lit env c"
| "run_node lit env c Act = act_node lit env c"
| "run_node lit env c Reflect = reflect_node lit env c"
| "run_node lit env c Validate = validate_node lit env c"
| "run_node lit env c Converge = converge_node lit env c"

text \<open>The edges and conditional edges, on the state the node has just updated;
  \<open>None\<close> is \<open>END\<close>.\<close>

fun next_node :: "node \<Rightarrow> graph_state \<Rightarrow> node option" where
  "next_node Plan state = Some Act"
| "next_node Act state = Some (if step state \<ge> maxSteps state then Validate else Reflect)"
| "next_node Reflect state = Some (if step state \<ge> maxSteps state - 1 then Validate else Act)"
| "next_node Validate state =
     Some (if isValid state = Some True then Converge
           else if step state \<ge> maxSteps state then Converge
           else Act)"
| "next_node Converge state = None"

section \<open>graph.ts: building and running the graph\<close>

text \<open>
  \<open>buildReasoningGraph\<close> creates a state graph over the channels below and adds the five
  nodes to it. The graph library's \<open>addNode\<close> refuses a node that bears the name of a
  channel; \<open>plan\<close> is both.
\<close>

definition channels :: "string list" where
  "channels =
     [''runId'', ''input'', ''params'', ''step'', ''maxSteps'', ''plan'', ''thoughts'',
      ''actions'', ''toolResults'', ''candidateAnswer'', ''structuredSchemaJson'', ''isValid'',
      ''finalAnswer'', ''finalObject'', ''startedAt'', ''endedAt'', ''cacheHit'', ''usedTools'',
      ''errors'']"

definition addNode :: "node \<Rightarrow> node list \<Rightarrow> error + node list" where
  "addNode n nodes =
     (if node_name n \<in> set channels then Inl (NodeNameClash (node_name n))
      else Inr (nodes @ [n]))"

fun addNodes :: "node list \<Rightarrow> node list \<Rightarrow> error + node list" where
  "addNodes [] nodes = Inr nodes"
| "addNodes (n # ns) nodes =
     (case addNode n nodes of Inl e \<Rightarrow> Inl e | Inr nodes' \<Rightarrow> addNodes ns nodes')"

definition buildReasoningGraph :: "error + node list" where
  "buildReasoningGraph = addNodes [Plan, Act, Reflect, Validate, Converge] []"

text \<open>
  \<open>graph.invoke\<close> on the nodes and edges above, as the graph library runs a compiled
  graph: a node runs, its edge chooses the next node, until \<open>END\<close> or until a node
  throws. The library counts the steps, and \<open>run()\<close> leaves its \<open>recursionLimit\<close> at the
  default of 25: once the 25th node has run the library throws, whether or not the
  graph was about to end. \<open>drive left\<close> runs the graph with \<open>left\<close> more nodes allowed
  after the one it starts with.
\<close>

definition recursionLimit :: nat where
  "recursionLimit = 25"

fun drive ::
  "nat \<Rightarrow> literals \<Rightarrow> client \<Rightarrow> ctx \<Rightarrow> node \<Rightarrow> graph_state \<Rightarrow> world
     \<Rightarrow> (error + graph_state) \<times> world" where
  "drive left lit env c n state w =
     (case run_node lit env c n state w of
        (Inl e, w') \<Rightarrow> (Inl e, w')
      | (Inr state', w') \<Rightarrow>
          (case left of
             0 \<Rightarrow> (Inl (GraphRecursionError recursionLimit), w')
           | Suc k \<Rightarrow>
               (case next_node n state' of
                  None \<Rightarrow> (Inr state', w')
                | Some n' \<Rightarrow> drive k lit env c n' state' w')))"

declare drive.simps [simp del]

text \<open>\<open>graph.invoke(initialState)\<close>: the graph is entered at \<open>plan\<close>.\<close>

definition graph_invoke ::
  "literals \<Rightarrow> client \<Rightarrow> ctx \<Rightarrow> graph_state \<Rightarrow> world \<Rightarrow> (error + graph_state) \<times> world" where
  "graph_invoke lit env c state w = drive (recursionLimit - 1) lit env c Plan state w"

section \<open>run.ts\<close>

text \<open>What \<open>createLibraryA\<close> builds once: the resolved parameters, the tools and the
  default step ceiling. The event bus, the memory and the caches it builds are in the
  world.\<close>

record library =
  baseParams :: model_params
  lib_tools :: "tool_def list"
  defaultMaxSteps :: int

record param_overrides =
  o_model :: "string option"
  o_temperature :: "decimal option"
  o_systemPrompt :: "string option"
  o_timeouts :: "timeout_config option"
  o_retries :: "retry_config option"
  o_rateLimit :: "rate_limit_config option"

record run_options =
  opt_maxSteps :: "int option"
  opt_signal :: "abort_signal option"
  opt_overrides :: "param_overrides option"

definition or_else :: "'a option \<Rightarrow> 'a option \<Rightarrow> 'a option" where
  "or_else a b = (case a of None \<Rightarrow> b | Some x \<Rightarrow> Some x)"

definition field :: "'r option \<Rightarrow> ('r \<Rightarrow> 'a option) \<Rightarrow> 'a option" where
  "field r f = (case r of None \<Rightarrow> None | Some x \<Rightarrow> f x)"

definition mergeParams :: "model_params \<Rightarrow> param_overrides option \<Rightarrow> model_params" where
  "mergeParams base ov =
     (case ov of
        None \<Rightarrow> base
      | Some v \<Rightarrow>
          \<lparr>model = (case o_model v of None \<Rightarrow> model base | Some m \<Rightarrow> m),
           temperature = or_else (o_temperature v) (temperature base),
           systemPrompt = or_else (o_systemPrompt v) (systemPrompt base),
           timeouts = Some
             \<lparr>perStepMs = or_else (field (o_timeouts v) perStepMs) (field (timeouts base) perStepMs),
              totalMs = or_else (field (o_timeouts v) totalMs) (field (timeouts base) totalMs)\<rparr>,
           retries = Some
             \<lparr>retry_max = or_else (field (o_retries v) retry_max) (field (retries base) retry_max),
              initialDelayMs =
                or_else (field (o_retries v) initialDelayMs) (field (retries base) initialDelayMs),
              factor = or_else (field (o_retries v) factor) (field (retries base) factor),
              maxDelayMs = or_else (field (o_retries v) maxDelayMs) (field (retries base) maxDelayMs)\<rparr>,
           rateLimit = Some
             \<lparr>rpm = or_else (field (o_rateLimit v) rpm) (field (rateLimit base) rpm),
              enabled = or_else (field (o_rateLimit v) enabled) (field (rateLimit base) enabled)\<rparr>\<rparr>)"

record run_meta =
  steps :: int
  durationMs :: int
  meta_model :: string
  meta_usedTools :: "string list"
  meta_cacheHit :: bool
  meta_events :: "event list option"

record run_result =
  res_text :: "string option"
  res_object :: "json option"
  res_meta :: run_meta

text \<open>\<open>{ delta }\<close> and \<open>{ event: "end", meta }\<close>.\<close>

record stream_chunk =
  delta :: "string option"
  event_tag :: "string option"
  chunk_meta :: "run_meta option"

definition delta_chunk :: "string \<Rightarrow> stream_chunk" where
  "delta_chunk s = \<lparr>delta = Some s, event_tag = None, chunk_meta = None\<rparr>"

definition end_chunk :: "run_meta \<Rightarrow> stream_chunk" where
  "end_chunk m = \<lparr>delta = None, event_tag = Some ''end'', chunk_meta = Some m\<rparr>"

definition run_start_event :: "string \<Rightarrow> model_params \<Rightarrow> int \<Rightarrow> world \<Rightarrow> event" where
  "run_start_event rid ps ms w =
     \<lparr>ev_runId = rid, kind = RunStart, timestamp = nowMs w,
      data = [(''model'', JStr (model ps)), (''maxSteps'', JNum ms)]\<rparr>"

text \<open>The data of \<open>run:end\<close> is the metadata (but for the reference to the event list).\<close>

definition run_end_event :: "string \<Rightarrow> run_meta \<Rightarrow> world \<Rightarrow> event" where
  "run_end_event rid m w =
     \<lparr>ev_runId = rid, kind = RunEnd, timestamp = nowMs w,
      data = [(''steps'', JNum (steps m)), (''durationMs'', JNum (durationMs m)),
              (''model'', JStr (meta_model m)),
              (''usedTools'', JArr (map JStr (meta_usedTools m))),
              (''cacheHit'', JBool (meta_cacheHit m))]\<rparr>"

definition initial_state :: "string \<Rightarrow> run_input \<Rightarrow> int \<Rightarrow> int \<Rightarrow> graph_state" where
  "initial_state rid inp ms started =
     \<lparr>runId = rid, input = inp, step = 0, maxSteps = ms, plan = None, thoughts = None,
      candidateAnswer = None, isValid = None, finalObject = None, startedAt = started,
      endedAt = None, cacheHit = False, usedTools = []\<rparr>"

text \<open>The context of a run: \<open>run()\<close> and \<open>stream()\<close> build it, with a limiter object of
  its own whose \<open>lastAt\<close> is undefined.\<close>

definition new_ctx :: "library \<Rightarrow> model_params \<Rightarrow> run_options \<Rightarrow> world \<Rightarrow> ctx \<times> world" where
  "new_ctx lib ps opts w =
     (\<lparr>params = ps, tools = lib_tools lib, limiter = next_limiter w, signal = opt_signal opts\<rparr>,
      w\<lparr>limiters := (limiters w)(next_limiter w := None), next_limiter := Suc (next_limiter w)\<rparr>)"

definition truthy_object :: "json option \<Rightarrow> bool" where
  "truthy_object obj = (case obj of None \<Rightarrow> False | Some v \<Rightarrow> truthy v)"

text \<open>The result \<open>run()\<close> builds from the final state.\<close>

definition build_meta :: "graph_state \<Rightarrow> model_params \<Rightarrow> int \<Rightarrow> event list option \<Rightarrow> run_meta" where
  "build_meta final ps duration evs =
     \<lparr>steps = step final, durationMs = duration, meta_model = model ps,
      meta_usedTools = unique (usedTools final), meta_cacheHit = cacheHit final,
      meta_events = evs\<rparr>"

definition build_result :: "graph_state \<Rightarrow> run_meta \<Rightarrow> run_result" where
  "build_result final m =
     \<lparr>res_text = (if truthy_object (finalObject final) then None
                  else Some (case candidateAnswer final of None \<Rightarrow> [] | Some s \<Rightarrow> s)),
      res_object = finalObject final,
      res_meta = m\<rparr>"

text \<open>
  \<open>run(input, options)\<close>. The run id and whether events are collected come from
  outside (a random id, the environment). The context is built and \<open>run:start\<close> is
  emitted; then \<open>buildReasoningGraph(ctx)\<close> is called, and when it throws \<open>run()\<close>
  rejects there. Otherwise the graph runs inside
  \<open>withTimeout(graph.invoke(initialState), totalMs, signal)\<close>; when the deadline or
  the abort comes first the run rejects, and the graph, which nothing stops, has its
  effects all the same.
\<close>

definition run ::
  "literals \<Rightarrow> client \<Rightarrow> library \<Rightarrow> string \<Rightarrow> bool \<Rightarrow> run_input \<Rightarrow> run_options \<Rightarrow> world
     \<Rightarrow> (error + run_result) \<times> world" where
  "run lit env lib rid collectEvents inp opts w =
     (let started = nowMs w;
          ps = mergeParams (baseParams lib) (opt_overrides opts);
          ms = (case opt_maxSteps opts of None \<Rightarrow> defaultMaxSteps lib | Some n \<Rightarrow> n);
          subscribed = length (events w);
          made = new_ctx lib ps opts w;
          w1 = emit (run_start_event rid ps ms (snd made)) (snd made)
      in case buildReasoningGraph of
           Inl e \<Rightarrow> (Inl e, w1)
         | Inr graph \<Rightarrow>
             let done = graph_invoke lit env (fst made) (initial_state rid inp ms started) w1;
                 w2 = snd done;
                 raced = withTimeout (nat (clock w2 - clock w), fst done)
                           (field (timeouts ps) totalMs) (opt_signal opts) w
             in case fst raced of
                  Inl e \<Rightarrow> (Inl e, w2)
                | Inr final \<Rightarrow>
                    let m = build_meta final ps (nowMs w2 - started)
                              (if collectEvents then Some (drop subscribed (events w2)) else None)
                    in (Inr (build_result final m), emit (run_end_event rid m w2) w2))"

text \<open>An awaited promise that nothing wraps: it settles after its duration.\<close>

definition await :: "nat \<times> (error + 'a) \<Rightarrow> world \<Rightarrow> (error + 'a) \<times> world" where
  "await p w = (snd p, w\<lparr>clock := clock w + int (fst p)\<rparr>)"

text \<open>
  The \<open>for await\<close> loop of \<open>stream()\<close> over \<open>streamText\<close>: a chunk arrives after its
  delay; an empty one is not passed on; at each one passed on the signal is looked at,
  and the loop breaks when it is aborted. The result is the deltas yielded, the time,
  and whether the loop broke.
\<close>

fun consume :: "abort_signal option \<Rightarrow> int \<Rightarrow> (nat \<times> string) list \<Rightarrow> string list \<times> int \<times> bool" where
  "consume sig t [] = ([], t, False)"
| "consume sig t ((d, s) # rest) =
     (if s = [] then consume sig (t + int d) rest
      else if aborted sig (t + int d) then ([], t + int d, True)
      else (case consume sig (t + int d) rest of
              (ds, t', broke) \<Rightarrow> (s # ds, t', broke)))"

definition stream_meta ::
  "int \<Rightarrow> int \<Rightarrow> model_params \<Rightarrow> memory_message list \<Rightarrow> event list option \<Rightarrow> run_meta" where
  "stream_meta n duration ps toolMessages evs =
     \<lparr>steps = n, durationMs = duration, meta_model = model ps,
      meta_usedTools = names_of toolMessages, meta_cacheHit = False, meta_events = evs\<rparr>"

text \<open>
  \<open>stream(input, options)\<close>: the chunks it yields, and the error it throws if it
  does. The list of events of the metadata is the one collected when the end chunk
  is yielded.
\<close>

definition finish_stream ::
  "string \<Rightarrow> bool \<Rightarrow> nat \<Rightarrow> run_meta \<Rightarrow> stream_chunk list \<Rightarrow> world
     \<Rightarrow> (stream_chunk list \<times> error option) \<times> world" where
  "finish_stream rid collectEvents subscribed m yielded w =
     (let w' = emit (run_end_event rid m w) w;
          m' = m\<lparr>meta_events := (if collectEvents then Some (drop subscribed (events w')) else None)\<rparr>
      in ((yielded @ [end_chunk m'], None), w'))"

text \<open>The last part of \<open>stream()\<close> when no schema is declared: the stream is opened,
  the deltas are yielded, and unless the stream threw the text accumulated is appended
  to the history. The result is the deltas yielded and the error thrown, if any.\<close>

definition stream_text ::
  "literals \<Rightarrow> client \<Rightarrow> string \<Rightarrow> abort_signal option \<Rightarrow> world
     \<Rightarrow> (string list \<times> error option) \<times> world" where
  "stream_text lit env rid sig w =
     (let sumMsgs = toLCMessages (Some (join_lines (summarize_lines lit))) (getHistory w rid);
          reply = stream_reply env (length (requests w));
          w1 = w\<lparr>requests := requests w @ [StreamRequest sumMsgs]\<rparr>;
          loop = consume sig (clock w1) (fst reply);
          w2 = w1\<lparr>clock := fst (snd loop)\<rparr>
      in if \<not> snd (snd loop) \<and> snd reply \<noteq> None then ((fst loop, snd reply), w2)
         else ((fst loop, None),
               memory_append rid [assistant_message (concat (fst loop))] w2))"

definition stream ::
  "literals \<Rightarrow> client \<Rightarrow> library \<Rightarrow> string \<Rightarrow> bool \<Rightarrow> run_input \<Rightarrow> run_options \<Rightarrow> world
     \<Rightarrow> (stream_chunk list \<times> error option) \<times> world" where
  "stream lit env lib rid collectEvents inp opts w =
     (let started = nowMs w;
          ps = mergeParams (baseParams lib) (opt_overrides opts);
          ms = (case opt_maxSteps opts of None \<Rightarrow> defaultMaxSteps lib | Some n \<Rightarrow> n);
          subscribed = length (events w);
          made = new_ctx lib ps opts w;
          w1 = emit (run_start_event rid ps ms (snd made)) (snd made);
          task = normalizeTask inp;
          planMsgs = toLCMessages (Some (join_lines (system_lines lit))) (getHistory w1 rid)
                     @ [HumanMessage (join_lines (stream_plan_lines lit @ [task_prefix lit @ task]))]
      in case (case invokeText env [] planMsgs w1 of (p, w') \<Rightarrow> await p w') of
           (Inl e, w2) \<Rightarrow> (([], Some e), w2)
         | (Inr planAI, w2) \<Rightarrow>
             let w3 = memory_append rid
                        [user_message task, assistant_message (ai_content planAI)] w2;
                 bound = buildLCTools (lib_tools lib);
                 actMsgs = toLCMessages (Some (join_lines (act_lines lit))) (getHistory w3 rid)
             in case (case invokeText env bound actMsgs w3 of (p, w') \<Rightarrow> await p w') of
                  (Inl e, w4) \<Rightarrow> (([], Some e), w4)
                | (Inr aiDecide, w4) \<Rightarrow>
                    let toolMessages = executeToolCalls lit aiDecide (lib_tools lib);
                        w5 = (if toolMessages \<noteq> [] then memory_append rid toolMessages w4 else w4)
                    in case declared_schema inp of
                         Some schema \<Rightarrow>
                           let validateMsgs =
                                 toLCMessages (Some (join_lines (validate_lines lit))) (getHistory w5 rid)
                                 @ [HumanMessage (validate_ask lit)]
                           in (case invokeWithStructuredOutput env validateMsgs schema w5 of
                                 (Inl e, w6) \<Rightarrow> (([], Some e), w6)
                               | (Inr obj, w6) \<Rightarrow>
                                   finish_stream rid collectEvents subscribed
                                     (stream_meta (min ms 3) (nowMs w6 - started) ps toolMessages None)
                                     [] w6)
                       | None \<Rightarrow>
                           (case stream_text lit env rid (opt_signal opts) w5 of
                              ((ds, Some e), w6) \<Rightarrow> ((map delta_chunk ds, Some e), w6)
                            | ((ds, None), w6) \<Rightarrow>
                                finish_stream rid collectEvents subscribed
                                  (stream_meta (min ms 4) (nowMs w6 - started) ps toolMessages None)
                                  (map delta_chunk ds) w6))"

definition policy_kinds :: "event_kind set" where
  "policy_kinds = {CacheHit, RateLimitDelay, Retry, ModelCallEnd}"

text \<open>What a model call leaves alone, and what it may only extend.\<close>

definition extends :: "ctx \<Rightarrow> world \<Rightarrow> world \<Rightarrow> bool" where
  "extends c w w' \<longleftrightarrow>
     (\<exists>evs. events w' = events w @ evs \<and> (\<forall>e\<in>set evs. kind e \<in> policy_kinds))
     \<and> next_limiter w' = next_limiter w
     \<and> (\<forall>a. a \<noteq> limiter c \<longrightarrow> limiters w' a = limiters w a)
     \<and> clock w \<le> clock w'
     \<and> length (requests w) \<le> length (requests w')"

definition cached_all :: "(ai_message \<Rightarrow> bool) \<Rightarrow> world \<Rightarrow> bool" where
  "cached_all P w \<longleftrightarrow> (\<forall>x\<in>set (entries (responseCache w)). P (fst (snd x)))"

definition phase_tag :: "event \<Rightarrow> event_kind \<times> json option \<times> json option" where
  "phase_tag e = (kind e, map_of (data e) ''node'', map_of (data e) ''step'')"

definition node_trace :: "event list \<Rightarrow> (event_kind \<times> json option \<times> json option) list" where
  "node_trace evs = map phase_tag (filter (\<lambda>e. kind e = NodeEnter \<or> kind e = NodeExit) evs)"

definition entered :: "node \<Rightarrow> int \<Rightarrow> event_kind \<times> json option \<times> json option" where
  "entered n s = (NodeEnter, Some (JStr (node_name n)), Some (JNum s))"

definition exited :: "node \<Rightarrow> int \<Rightarrow> event_kind \<times> json option \<times> json option" where
  "exited n s = (NodeExit, Some (JStr (node_name n)), Some (JNum s))"

definition node_shape :: "ctx \<Rightarrow> node \<Rightarrow> graph_state \<Rightarrow> world \<Rightarrow> (error + graph_state) \<times> world \<Rightarrow> bool" where
  "node_shape c n st w out \<longleftrightarrow>
     node_trace (new_events w (snd out))
       = entered n (step st) # (case fst out of Inl _ \<Rightarrow> [] | Inr _ \<Rightarrow> [exited n (step st)])
     \<and> (\<exists>inner closing.
           new_events w (snd out) = node_event NodeEnter (node_name n) st [] w # inner @ closing
           \<and> (\<forall>e\<in>set inner. kind e \<in> policy_kinds)
           \<and> (case fst out of Inl _ \<Rightarrow> closing = []
               | Inr _ \<Rightarrow> \<exists>extra wk. closing = [node_event NodeExit (node_name n) st extra wk]))
     \<and> (\<exists>evs. events (snd out) = events w @ evs)
     \<and> next_limiter (snd out) = next_limiter w
     \<and> (\<forall>a. a \<noteq> limiter c \<longrightarrow> limiters (snd out) a = limiters w a)
     \<and> clock w \<le> clock (snd out)
     \<and> length (requests w) \<le> length (requests (snd out))"

fun trace_of :: "(node \<times> int) list \<Rightarrow> bool \<Rightarrow> (event_kind \<times> json option \<times> json option) list" where
  "trace_of [] ok = []"
| "trace_of [p] ok = entered (fst p) (snd p) # (if ok then [exited (fst p) (snd p)] else [])"
| "trace_of (p # q # ps) ok =
     entered (fst p) (snd p) # exited (fst p) (snd p) # trace_of (q # ps) ok"

definition follows :: "int \<Rightarrow> node \<times> int \<Rightarrow> node \<times> int \<Rightarrow> bool" where
  "follows N p q =
     (case fst p of
        Plan \<Rightarrow> q = (Act, snd p)
      | Act \<Rightarrow> q = (if snd p + 1 \<ge> N then Validate else Reflect, snd p + 1)
      | Reflect \<Rightarrow> q = (if snd p \<ge> N - 1 then Validate else Act, snd p)
      | Validate \<Rightarrow> snd q = snd p \<and> (fst q = Converge \<or> (fst q = Act \<and> snd p < N))
      | Converge \<Rightarrow> False)"

definition act_entries :: "(event_kind \<times> json option \<times> json option) list \<Rightarrow> (event_kind \<times> json option \<times> json option) list" where
  "act_entries tr = filter (\<lambda>x. fst x = NodeEnter \<and> fst (snd x) = Some (JStr ''act'')) tr"

text \<open>On a path of the graph, \<open>act\<close> is entered below the ceiling only.\<close>

definition below :: "int \<Rightarrow> node \<times> int \<Rightarrow> bool" where
  "below N p \<longleftrightarrow> (fst p = Plan \<or> fst p = Act \<longrightarrow> snd p < N)"

definition reliable :: "client \<Rightarrow> ctx \<Rightarrow> bool" where
  "reliable env c \<longleftrightarrow>
     (\<forall>n. \<exists>v. snd (invoke_reply env n) = Inr v)
     \<and> (\<forall>n. \<exists>v. snd (structured_reply env n) = Inr v)
     \<and> perStep c = None \<and> signal c = None"

text \<open>The chunks of a stream with the time at which each arrives.\<close>

fun arrivals :: "int \<Rightarrow> (nat \<times> string) list \<Rightarrow> (int \<times> string) list" where
  "arrivals t [] = []"
| "arrivals t ((d, s) # rest) = (t + int d, s) # arrivals (t + int d) rest"

section \<open>Concrete inputs\<close>

definition params0 :: model_params where
  "params0 = \<lparr>model = ''gemini-1.5-pro'', temperature = None, systemPrompt = None,
     timeouts = None, retries = None, rateLimit = None\<rparr>"

definition ctx0 :: ctx where
  "ctx0 = \<lparr>params = params0, tools = [], limiter = 0, signal = None\<rparr>"

definition state0 :: graph_state where
  "state0 = \<lparr>runId = ''run_1'', input = TaskText ''hi'', step = 0, maxSteps = 2, plan = None,
     thoughts = None, candidateAnswer = None, isValid = None, finalObject = None,
     startedAt = 1000, endedAt = None, cacheHit = False, usedTools = []\<rparr>"

definition world0 :: world where
  "world0 = \<lparr>clock = 1000, events = [], responseCache = \<lparr>entries = [], cache_max = 500, cache_ttl = 60000\<rparr>,
     store = (\<lambda>_. None), requests = [], sleeps = [], limiters = (\<lambda>_. None), next_limiter = 0\<rparr>"

definition ok_message :: ai_message where
  "ok_message = \<lparr>ai_content = ''OK'', tool_calls = []\<rparr>"

text \<open>A client whose first request fails, and one that always fails.\<close>

definition flaky :: client where
  "flaky = \<lparr>invoke_reply = (\<lambda>n. if n = 0 then (5, Inl (Failure ''503'')) else (5, Inr ok_message)),
     structured_reply = (\<lambda>n. (5, Inr JNull)), stream_reply = (\<lambda>n. ([], None))\<rparr>"

definition down :: client where
  "down = \<lparr>invoke_reply = (\<lambda>n. (5, Inl (Failure ''503''))),
     structured_reply = (\<lambda>n. (5, Inr JNull)), stream_reply = (\<lambda>n. ([], None))\<rparr>"

definition steady :: client where
  "steady = \<lparr>invoke_reply = (\<lambda>n. (5, Inr ok_message)),
     structured_reply = (\<lambda>n. (5, Inr (JObj [(''ok'', JBool True)]))), stream_reply = (\<lambda>n. ([], None))\<rparr>"

definition ctx_deadline :: ctx where
  "ctx_deadline = ctx0\<lparr>params := params0\<lparr>timeouts := Some \<lparr>perStepMs = Some 100, totalMs = None\<rparr>\<rparr>\<rparr>"

definition ctx_aborted :: ctx where
  "ctx_aborted = ctx0\<lparr>signal := Some (AbortSignal (Some 900))\<rparr>"

text \<open>A client whose first reply takes 500 ms, and the later ones 5 ms.\<close>

definition slow_once :: client where
  "slow_once = \<lparr>invoke_reply = (\<lambda>n. if n = 0 then (500, Inr ok_message) else (5, Inr ok_message)),
     structured_reply = (\<lambda>n. (5, Inr JNull)), stream_reply = (\<lambda>n. ([], None))\<rparr>"

definition slow :: client where
  "slow = \<lparr>invoke_reply = (\<lambda>n. (500, Inr ok_message)),
     structured_reply = (\<lambda>n. (5, Inr JNull)), stream_reply = (\<lambda>n. ([], None))\<rparr>"

definition lit0 :: literals where
  "lit0 = \<lparr>system_lines = [''S1'', ''S2'', ''S3''], plan_lines = [''P1'', ''P2'', ''P3''],
     task_prefix = ''Task: '', act_lines = [''A1'', ''A2'', ''A3''],
     reflect_lines = [''R1'', ''R2''], reflect_ask = [''Q1'', ''Q2'', ''Q3''],
     validate_lines = [''V1'', ''V2''], validate_ask = ''VQ'',
     unregistered = ''unregistered tool: '', stream_plan_lines = [''P1'', ''P2'', ''P3''],
     summarize_lines = [''M1'', ''M2'']\<rparr>"

definition state_schema :: graph_state where
  "state_schema = state0\<lparr>input := TaskObject ''plan a trip'' (Some (JObj [(''type'', JStr ''object'')])),
     candidateAnswer := Some ''OK''\<rparr>"

definition state_blank :: graph_state where
  "state_blank = state0\<lparr>candidateAnswer := Some ''  ''\<rparr>"

text \<open>Three tools (one that returns its arguments, a hidden one, and one whose schema
  refuses its arguments), a reply of the model that calls five tools in one batch, a
  client that gives that reply, and a context with the three tools.\<close>

definition echo :: tool_def where
  "echo = \<lparr>tool_name = ''echo'', tool_schema = JsonSchema (JObj []), tool_enabled = None,
     tool_hidden = None, execute = (\<lambda>a. Inr (JObj [(''echo'', a)]))\<rparr>"

definition secret :: tool_def where
  "secret = \<lparr>tool_name = ''secret'', tool_schema = JsonSchema (JObj []), tool_enabled = None,
     tool_hidden = Some True, execute = (\<lambda>a. Inr (JStr ''hidden''))\<rparr>"

definition strict :: tool_def where
  "strict = \<lparr>tool_name = ''strict'', tool_schema = Zod (\<lambda>a. Inl (Failure ''Required'')),
     tool_enabled = Some True, tool_hidden = Some False, execute = (\<lambda>a. Inr a)\<rparr>"

definition call_batch :: ai_message where
  "call_batch = \<lparr>ai_content = ''OK'',
     tool_calls =
       [\<lparr>call_name = Some ''nope'', call_tool = None, call_args = None\<rparr>,
        \<lparr>call_name = Some ''echo'', call_tool = None, call_args = Some JNull\<rparr>,
        \<lparr>call_name = Some ''secret'', call_tool = None, call_args = Some (JObj [])\<rparr>,
        \<lparr>call_name = None, call_tool = Some ''echo'', call_args = Some (JObj [(''q'', JStr ''x'')])\<rparr>,
        \<lparr>call_name = Some ''strict'', call_tool = None, call_args = None\<rparr>]\<rparr>"

definition batchy :: client where
  "batchy = \<lparr>invoke_reply = (\<lambda>n. (5, Inr call_batch)),
     structured_reply = (\<lambda>n. (5, Inr JNull)), stream_reply = (\<lambda>n. ([], None))\<rparr>"

definition ctx_tools :: ctx where
  "ctx_tools = ctx0\<lparr>tools := [echo, secret, strict]\<rparr>"

text \<open>A library with no tools, over the parameters of the examples.\<close>

definition lib0 :: library where
  "lib0 = \<lparr>baseParams = params0, lib_tools = [], defaultMaxSteps = 6\<rparr>"

text \<open>Options whose signal is aborted at the time 1022.\<close>

definition opts_abort :: run_options where
  "opts_abort = \<lparr>opt_maxSteps = None, opt_signal = Some (AbortSignal (Some 1022)),
     opt_overrides = None\<rparr>"

text \<open>A client whose stream gives four chunks, the second one empty.\<close>

definition chatty :: client where
  "chatty = \<lparr>invoke_reply = (\<lambda>n. (5, Inr ok_message)),
     structured_reply = (\<lambda>n. (5, Inr JNull)),
     stream_reply = (\<lambda>n. ([(5, ''a''), (5, ''''), (5, ''b''), (5, ''c'')], None))\<rparr>"

text \<open>Options that override nothing, and a task with a schema.\<close>

definition opts0 :: run_options where
  "opts0 = \<lparr>opt_maxSteps = None, opt_signal = None, opt_overrides = None\<rparr>"

definition task_trip :: run_input where
  "task_trip = TaskObject ''plan a trip'' (Some (JObj [(''type'', JStr ''object'')]))"

text \<open>A library limited to 60 requests a minute, the first run made from it, the world
  after a first model call of that run, and the second run made from the library.\<close>

definition params_limited :: model_params where
  "params_limited = params0\<lparr>rateLimit := Some \<lparr>rpm = Some 60, enabled = Some True\<rparr>\<rparr>"

definition lib_limited :: library where
  "lib_limited = \<lparr>baseParams = params_limited, lib_tools = [], defaultMaxSteps = 6\<rparr>"

definition first_run :: "ctx \<times> world" where
  "first_run = new_ctx lib_limited (mergeParams (baseParams lib_limited) None) opts0 world0"

definition after_call :: world where
  "after_call = snd (callModelTextRaw steady (fst first_run) [] [HumanMessage ''hi'']
                       state0 (Some ''plan'') (snd first_run))"

definition second_run :: "ctx \<times> world" where
  "second_run = new_ctx lib_limited (mergeParams (baseParams lib_limited) None) opts0 after_call"

text \<open>A context with the temperature 0.2, two messages, and the world after a first
  call with them.\<close>

definition ctx_warm :: ctx where
  "ctx_warm = ctx0\<lparr>params := params0\<lparr>temperature := Some (Decimal 2 (- 1))\<rparr>\<rparr>"

definition greeting :: "lc_message list" where
  "greeting = [SystemMessage ''be brief'', HumanMessage ''hi'']"

definition after_warm :: world where
  "after_warm = snd (callModelTextRaw steady ctx_warm [] greeting state0 (Some ''plan'') world0)"


section \<open>The retry loop\<close>

lemma timedInvoke_requests: "requests (snd (timedInvoke env c bound ms u)) = requests u @ [TextRequest bound ms]"
  by (auto simp: timedInvoke_def invokeText_def withTimeout_def Let_def split: prod.splits option.splits)

lemma timedInvoke_events: "events (snd (timedInvoke env c bound ms u)) = events u"
  by (auto simp: timedInvoke_def invokeText_def withTimeout_def Let_def split: prod.splits option.splits)

lemma timedInvoke_sleeps: "sleeps (snd (timedInvoke env c bound ms u)) = sleeps u"
  by (auto simp: timedInvoke_def invokeText_def withTimeout_def Let_def split: prod.splits option.splits)

lemma timedInvoke_limiters: "limiters (snd (timedInvoke env c bound ms u)) = limiters u"
  by (auto simp: timedInvoke_def invokeText_def withTimeout_def Let_def split: prod.splits option.splits)

lemma timedInvoke_cache: "responseCache (snd (timedInvoke env c bound ms u)) = responseCache u"
  by (auto simp: timedInvoke_def invokeText_def withTimeout_def Let_def split: prod.splits option.splits)

lemma earlier_Some: "earlier (timer_at now ms) (abort_at sig) = Some (e, t) \<Longrightarrow> \<not> aborted sig now \<Longrightarrow> now \<le> t"
  by (cases "(sig, now)" rule: aborted.cases) (auto simp: earlier_def timer_at_def abort_at_def split: option.splits if_splits)

lemma withTimeout_clock: "clock u \<le> clock (snd (withTimeout p ms sig u))"
  by (auto simp: withTimeout_def Let_def split: option.splits dest: earlier_Some)

lemma timedInvoke_clock: "clock u \<le> clock (snd (timedInvoke env c bound ms u))"
  using withTimeout_clock [of "u\<lparr>requests := requests u @ [TextRequest bound ms]\<rparr>"]
  by (simp add: timedInvoke_def invokeText_def)

lemma timedInvoke_fst:
  "fst (timedInvoke env c bound ms u) =
   fst (withTimeout (invoke_reply env (length (requests u))) (perStep c) (signal c) u)"
  by (auto simp: timedInvoke_def invokeText_def withTimeout_def Let_def split: prod.splits option.splits)

lemma upt_shift: "map f [0..<Suc k] = f 0 # map (\<lambda>i. f (Suc i)) [0..<k]"
  by (simp add: upt_conv_Cons map_Suc_upt [symmetric] del: upt_Suc)

lemma retry_loop_step:
  assumes f: "timedInvoke env c bound ms w = (Inl e, w1)" and lt: "a + 1 < retries_max c"
  shows "retry_loop c state (timedInvoke env c bound ms) a d w
     = retry_loop c state (timedInvoke env c bound ms) (a + 1) (d * retries_factor c)
         (sleep (min d (retries_maxDelay c)) (emit (retry_event state (a + 1) e w1) w1))"
  using f lt by (subst retry_loop.simps) simp

text \<open>The loop after k failures: the outcome of the (k+1)-th attempt decides.\<close>

lemma retry_loop_run:
  assumes fails: "\<And>i u. i < k \<Longrightarrow> t0 \<le> clock u \<Longrightarrow> length (requests u) = n + i
        \<Longrightarrow> fst (timedInvoke env c bound ms u) = Inl (es i)"
    and last: "\<And>u. t0 \<le> clock u \<Longrightarrow> length (requests u) = n + k
        \<Longrightarrow> fst (timedInvoke env c bound ms u) = r"
    and stop: "(\<exists>v. r = Inr v) \<or> a + int k + 1 \<ge> retries_max c"
    and lt: "a + int k < retries_max c \<or> k = 0"
    and n: "length (requests w) = n" and t0: "t0 \<le> clock w"
  shows "\<exists>w' evs. retry_loop c state (timedInvoke env c bound ms) a d w = (r, w')
      \<and> events w' = events w @ evs
      \<and> map kind evs = replicate k Retry
      \<and> map data evs = map (\<lambda>i. retry_data (a + 1 + int i) (es i)) [0..<k]
      \<and> sleeps w' = sleeps w @ map (\<lambda>i. min (d * retries_factor c ^ i) (retries_maxDelay c)) [0..<k]
      \<and> length (requests w') = n + k + 1
      \<and> limiters w' = limiters w \<and> responseCache w' = responseCache w"
  using assms
proof (induction k arbitrary: a d w n es)
  case 0
  obtain r' w1 where f: "timedInvoke env c bound ms w = (r', w1)"
    by (cases "timedInvoke env c bound ms w")
  have r: "r' = r" using 0(2) [of w] 0(5,6) f by simp
  have "retry_loop c state (timedInvoke env c bound ms) a d w = (r, w1)"
    using f r 0(3) by (subst retry_loop.simps) (auto split: sum.splits)
  then show ?case
    using timedInvoke_events [of env c bound ms w] timedInvoke_sleeps [of env c bound ms w]
      timedInvoke_requests [of env c bound ms w] timedInvoke_limiters [of env c bound ms w]
      timedInvoke_cache [of env c bound ms w] f 0(5)
    by simp
next
  case (Suc k)
  obtain r' w1 where f: "timedInvoke env c bound ms w = (r', w1)"
    by (cases "timedInvoke env c bound ms w")
  have r: "r' = Inl (es 0)" using Suc.prems(1) [of 0 w] Suc.prems(5,6) f by simp
  let ?w2 = "sleep (min d (retries_maxDelay c)) (emit (retry_event state (a + 1) (es 0) w1) w1)"
  have w1: "events w1 = events w" "sleeps w1 = sleeps w" "length (requests w1) = Suc n"
      "limiters w1 = limiters w" "responseCache w1 = responseCache w" "t0 \<le> clock w1"
    using timedInvoke_events [of env c bound ms w] timedInvoke_sleeps [of env c bound ms w]
      timedInvoke_requests [of env c bound ms w] timedInvoke_limiters [of env c bound ms w]
      timedInvoke_cache [of env c bound ms w] timedInvoke_clock [of w env c bound ms]
      f Suc.prems(5,6) by simp_all
  have step: "retry_loop c state (timedInvoke env c bound ms) a d w
     = retry_loop c state (timedInvoke env c bound ms) (a + 1) (d * retries_factor c) ?w2"
    using f r Suc.prems(4) by (intro retry_loop_step) auto
  have w2: "events ?w2 = events w @ [retry_event state (a + 1) (es 0) w1]"
      "sleeps ?w2 = sleeps w @ [min d (retries_maxDelay c)]"
      "length (requests ?w2) = Suc n" "limiters ?w2 = limiters w"
      "responseCache ?w2 = responseCache w" "t0 \<le> clock ?w2"
    using w1 by (simp_all add: sleep_def emit_def)
  have "\<exists>w' evs. retry_loop c state (timedInvoke env c bound ms) (a + 1) (d * retries_factor c) ?w2 = (r, w')
      \<and> events w' = events ?w2 @ evs
      \<and> map kind evs = replicate k Retry
      \<and> map data evs = map (\<lambda>i. retry_data (a + 1 + 1 + int i) (es (Suc i))) [0..<k]
      \<and> sleeps w' = sleeps ?w2 @ map (\<lambda>i. min (d * retries_factor c * retries_factor c ^ i) (retries_maxDelay c)) [0..<k]
      \<and> length (requests w') = Suc n + k + 1
      \<and> limiters w' = limiters ?w2 \<and> responseCache w' = responseCache ?w2"
  proof (rule Suc.IH [where es = "\<lambda>i. es (Suc i)"])
    show "\<And>i u. i < k \<Longrightarrow> t0 \<le> clock u \<Longrightarrow> length (requests u) = Suc n + i
        \<Longrightarrow> fst (timedInvoke env c bound ms u) = Inl (es (Suc i))"
      using Suc.prems(1) by simp
    show "\<And>u. t0 \<le> clock u \<Longrightarrow> length (requests u) = Suc n + k \<Longrightarrow> fst (timedInvoke env c bound ms u) = r"
      using Suc.prems(2) by simp
    show "(\<exists>v. r = Inr v) \<or> retries_max c \<le> a + 1 + int k + 1" using Suc.prems(3) by auto
    show "a + 1 + int k < retries_max c \<or> k = 0" using Suc.prems(4) by auto
    show "length (requests ?w2) = Suc n" by (rule w2)
    show "t0 \<le> clock ?w2" by (rule w2)
  qed
  then obtain w' evs where w':
      "retry_loop c state (timedInvoke env c bound ms) (a + 1) (d * retries_factor c) ?w2 = (r, w')"
      "events w' = events ?w2 @ evs"
      "map kind evs = replicate k Retry"
      "map data evs = map (\<lambda>i. retry_data (a + 1 + 1 + int i) (es (Suc i))) [0..<k]"
      "sleeps w' = sleeps ?w2 @ map (\<lambda>i. min (d * retries_factor c * retries_factor c ^ i) (retries_maxDelay c)) [0..<k]"
      "length (requests w') = Suc n + k + 1"
      "limiters w' = limiters ?w2" "responseCache w' = responseCache ?w2" by blast
  have e0: "kind (retry_event state (a + 1) (es 0) w1) = Retry"
      "data (retry_event state (a + 1) (es 0) w1) = retry_data (a + 1 + int 0) (es 0)"
    by (simp_all add: retry_event_def retry_data_def)
  have "events w' = events w @ (retry_event state (a + 1) (es 0) w1 # evs)"
    using w'(2) w2(1) by simp
  moreover have "map kind (retry_event state (a + 1) (es 0) w1 # evs) = replicate (Suc k) Retry"
    using w'(3) e0 by simp
  moreover have "map data (retry_event state (a + 1) (es 0) w1 # evs)
      = map (\<lambda>i. retry_data (a + 1 + int i) (es i)) [0..<Suc k]"
    using w'(4) e0 by (simp only: upt_shift list.map) (simp add: add.assoc)
  moreover have "sleeps w' = sleeps w @ map (\<lambda>i. min (d * retries_factor c ^ i) (retries_maxDelay c)) [0..<Suc k]"
    using w'(5) w2(2) by (simp only: upt_shift list.map) (simp add: mult.assoc)
  ultimately show ?case using step w'(1) w'(6) w'(7) w'(8) w2(4) w2(5) by auto
qed

lemma ensureRateLimit_requests: "requests (ensureRateLimit c st w) = requests w"
  by (auto simp: ensureRateLimit_def Let_def sleep_def emit_def split: option.splits)

lemma ensureRateLimit_cache: "responseCache (ensureRateLimit c st w) = responseCache w"
  by (auto simp: ensureRateLimit_def Let_def sleep_def emit_def split: option.splits)

lemma ensureRateLimit_clock: "clock w \<le> clock (ensureRateLimit c st w)"
  by (auto simp: ensureRateLimit_def Let_def sleep_def emit_def nowMs_def split: option.splits)

lemma ensureRateLimit_events:
  "\<exists>evs. events (ensureRateLimit c st w) = events w @ evs \<and> (\<forall>e\<in>set evs. kind e = RateLimitDelay)"
  by (auto simp: ensureRateLimit_def Let_def sleep_def emit_def delay_event_def split: option.splits)

lemma ensureRateLimit_sleeps_cache:
  "length (sleeps (ensureRateLimit c st (w\<lparr>responseCache := x\<rparr>))) = length (sleeps (ensureRateLimit c st w))"
  by (auto simp: ensureRateLimit_def Let_def sleep_def emit_def nowMs_def split: option.splits)

lemma of_kind_append: "of_kind k (xs @ ys) = of_kind k xs @ of_kind k ys"
  by (simp add: of_kind_def)

lemma of_kind_all: "map kind evs = replicate n k \<Longrightarrow> of_kind k evs = evs"
proof -
  assume "map kind evs = replicate n k"
  then have "set (map kind evs) \<subseteq> {k}" by (simp add: set_replicate_conv_if)
  then show ?thesis unfolding of_kind_def by (intro filter_True) auto
qed

lemma of_kind_none: "(\<And>e. e \<in> set evs \<Longrightarrow> kind e \<noteq> k) \<Longrightarrow> of_kind k evs = []"
  unfolding of_kind_def by (induction evs) auto

text \<open>A miss: the rate limiter, the retry loop, then the cache and the end event.\<close>

lemma callModelTextRaw_miss:
  assumes miss: "fst (cache_get (responseCache w) (nowMs w) (request_key c tag msgs)) = None"
    and fails: "\<And>i u. i < k \<Longrightarrow> clock w \<le> clock u \<Longrightarrow>
        fst (withTimeout (invoke_reply env (length (requests w) + i)) (perStep c) (signal c) u) = Inl (es i)"
    and last: "\<And>u. clock w \<le> clock u \<Longrightarrow>
        fst (withTimeout (invoke_reply env (length (requests w) + k)) (perStep c) (signal c) u) = r"
    and stop: "(\<exists>v. r = Inr v) \<or> int k + 1 \<ge> retries_max c"
    and lt: "int k < retries_max c \<or> k = 0"
  shows "\<exists>w'. callModelTextRaw env c bound msgs state tag w = (map_sum id (\<lambda>v. (v, False)) r, w')
      \<and> map data (of_kind Retry (new_events w w')) = map (\<lambda>i. retry_data (int i + 1) (es i)) [0..<k]
      \<and> new_sleeps (ensureRateLimit c state w) w'
          = map (\<lambda>i. min (retries_initial c * retries_factor c ^ i) (retries_maxDelay c)) [0..<k]
      \<and> length (new_requests w w') = k + 1
      \<and> length (of_kind ModelCallEnd (new_events w w')) = (if isl r then 0 else 1)"
proof -
  define w0 where "w0 = w\<lparr>responseCache := snd (cache_get (responseCache w) (nowMs w) (request_key c tag msgs))\<rparr>"
  define w1 where "w1 = ensureRateLimit c state w0"
  have w0: "events w0 = events w" "requests w0 = requests w" "clock w0 = clock w"
    by (simp_all add: w0_def)
  obtain rl where rl: "events w1 = events w @ rl" "\<forall>e\<in>set rl. kind e = RateLimitDelay"
    using ensureRateLimit_events [of c state w0] w0 by (auto simp: w1_def)
  have w1: "length (requests w1) = length (requests w)" "clock w \<le> clock w1"
      "length (sleeps w1) = length (sleeps (ensureRateLimit c state w))"
    using ensureRateLimit_requests [of c state w0] ensureRateLimit_clock [of w0 c state] w0
      ensureRateLimit_sleeps_cache [where c = c and st = state and w = w]
    by (simp_all add: w1_def w0_def)
  have "\<exists>w' evs. retry_loop c state (timedInvoke env c bound msgs) 0 (retries_initial c) w1 = (r, w')
      \<and> events w' = events w1 @ evs
      \<and> map kind evs = replicate k Retry
      \<and> map data evs = map (\<lambda>i. retry_data (0 + 1 + int i) (es i)) [0..<k]
      \<and> sleeps w' = sleeps w1 @ map (\<lambda>i. min (retries_initial c * retries_factor c ^ i) (retries_maxDelay c)) [0..<k]
      \<and> length (requests w') = length (requests w) + k + 1
      \<and> limiters w' = limiters w1 \<and> responseCache w' = responseCache w1"
  proof (rule retry_loop_run [where ?t0.0 = "clock w"])
    show "\<And>i u. i < k \<Longrightarrow> clock w \<le> clock u \<Longrightarrow> length (requests u) = length (requests w) + i
        \<Longrightarrow> fst (timedInvoke env c bound msgs u) = Inl (es i)"
      using fails by (simp add: timedInvoke_fst)
    show "\<And>u. clock w \<le> clock u \<Longrightarrow> length (requests u) = length (requests w) + k
        \<Longrightarrow> fst (timedInvoke env c bound msgs u) = r"
      using last by (simp add: timedInvoke_fst)
    show "(\<exists>v. r = Inr v) \<or> retries_max c \<le> 0 + int k + 1" using stop by simp
    show "0 + int k < retries_max c \<or> k = 0" using lt by simp
    show "length (requests w1) = length (requests w)" by (rule w1)
    show "clock w \<le> clock w1" by (rule w1)
  qed
  then obtain w2 evs where w2:
      "retry_loop c state (timedInvoke env c bound msgs) 0 (retries_initial c) w1 = (r, w2)"
      "events w2 = events w1 @ evs" "map kind evs = replicate k Retry"
      "map data evs = map (\<lambda>i. retry_data (0 + 1 + int i) (es i)) [0..<k]"
      "sleeps w2 = sleeps w1 @ map (\<lambda>i. min (retries_initial c * retries_factor c ^ i) (retries_maxDelay c)) [0..<k]"
      "length (requests w2) = length (requests w) + k + 1"
    by blast
  have rl_retry: "of_kind Retry rl = []" "of_kind ModelCallEnd rl = []"
    using rl(2) by (auto intro!: of_kind_none)
  have "\<forall>e\<in>set evs. kind e = Retry"
    using w2(3) by (metis (no_types, lifting) in_set_replicate imageI list.set_map)
  then have evs_retry: "of_kind Retry evs = evs" "of_kind ModelCallEnd evs = []"
    using w2(3) of_kind_all [of evs k Retry] by (auto intro!: of_kind_none)
  have dat: "map data evs = map (\<lambda>i. retry_data (int i + 1) (es i)) [0..<k]"
    using w2(4) by (simp add: add.commute)
  show ?thesis
  proof (cases r)
    case (Inl e)
    have "callModelTextRaw env c bound msgs state tag w = (Inl e, w2)"
      using miss w2(1) Inl
      by (simp add: callModelTextRaw_def Let_def retryAsync_def w1_def w0_def)
    moreover have "new_events w w2 = rl @ evs" using w2(2) rl(1) by (simp add: new_events_def)
    moreover have "new_sleeps (ensureRateLimit c state w) w2
        = map (\<lambda>i. min (retries_initial c * retries_factor c ^ i) (retries_maxDelay c)) [0..<k]"
      using w2(5) w1(3) by (simp add: new_sleeps_def)
    moreover have "length (new_requests w w2) = k + 1" using w2(6) by (simp add: new_requests_def)
    ultimately show ?thesis using Inl rl_retry evs_retry dat by (simp add: of_kind_append)
  next
    case (Inr v)
    define w3 where "w3 = w2\<lparr>responseCache := cache_set (responseCache w2) (nowMs w2) (request_key c tag msgs) v\<rparr>"
    define w4 where "w4 = emit (call_end_event state w3) w3"
    have "callModelTextRaw env c bound msgs state tag w = (Inr (v, False), w4)"
      using miss w2(1) Inr
      by (simp add: callModelTextRaw_def Let_def retryAsync_def w1_def w0_def w3_def w4_def)
    moreover have "new_events w w4 = rl @ evs @ [call_end_event state w3]"
      using w2(2) rl(1) by (simp add: new_events_def w4_def w3_def emit_def)
    moreover have "new_sleeps (ensureRateLimit c state w) w4
        = map (\<lambda>i. min (retries_initial c * retries_factor c ^ i) (retries_maxDelay c)) [0..<k]"
      using w2(5) w1(3) by (simp add: new_sleeps_def w4_def w3_def emit_def)
    moreover have "length (new_requests w w4) = k + 1"
      using w2(6) by (simp add: new_requests_def w4_def w3_def emit_def)
    moreover have "of_kind Retry [call_end_event state w3] = []"
        "of_kind ModelCallEnd [call_end_event state w3] = [call_end_event state w3]"
      by (simp_all add: of_kind_def call_end_event_def)
    ultimately show ?thesis using Inr rl_retry evs_retry dat by (simp add: of_kind_append)
  qed
qed

text \<open>
  C4. A policy-wrapped call that misses the cache, under a retry policy with maximum
  attempt count \<open>max\<close>. If the timeout-wrapped invocation fails k times, with the
  errors \<open>es 0, ..., es (k - 1)\<close>, whenever it is made, then:
  if \<open>k < max\<close> and the next invocation succeeds with \<open>v\<close>, the call succeeds with
  \<open>v\<close>, exactly k retry events are emitted, the i-th with the attempt number i and
  the message of the i-th error, the sleep after the i-th failure is
  \<open>min (initialDelay * factor ^ (i - 1)) maxDelay\<close>, and k + 1 requests are made;
  if \<open>k = max\<close> (at least one), the last error comes out of the call after \<open>max\<close>
  requests, and no \<open>model:call:end\<close> event is emitted.
\<close>

theorem retry_bound:
  assumes miss: "fst (cache_get (responseCache w) (nowMs w) (request_key c tag msgs)) = None"
    and fails: "\<And>i u. i < k \<Longrightarrow> clock w \<le> clock u \<Longrightarrow>
        fst (withTimeout (invoke_reply env (length (requests w) + i)) (perStep c) (signal c) u) = Inl (es i)"
  shows "(int k < retries_max c
          \<and> (\<forall>u. clock w \<le> clock u \<longrightarrow>
               fst (withTimeout (invoke_reply env (length (requests w) + k)) (perStep c) (signal c) u) = Inr v)
          \<longrightarrow> (\<exists>w'. callModelTextRaw env c bound msgs state tag w = (Inr (v, False), w')
                \<and> map data (of_kind Retry (new_events w w')) = map (\<lambda>i. retry_data (int i + 1) (es i)) [0..<k]
                \<and> new_sleeps (ensureRateLimit c state w) w'
                    = map (\<lambda>i. min (retries_initial c * retries_factor c ^ i) (retries_maxDelay c)) [0..<k]
                \<and> length (new_requests w w') = k + 1
                \<and> length (of_kind ModelCallEnd (new_events w w')) = 1))
       \<and> (int k = retries_max c \<and> 0 < k
          \<longrightarrow> (\<exists>w'. callModelTextRaw env c bound msgs state tag w = (Inl (es (k - 1)), w')
                \<and> length (of_kind Retry (new_events w w')) = k - 1
                \<and> length (new_requests w w') = k
                \<and> of_kind ModelCallEnd (new_events w w') = []))"
proof (intro conjI impI)
  assume a: "int k < retries_max c
          \<and> (\<forall>u. clock w \<le> clock u \<longrightarrow>
               fst (withTimeout (invoke_reply env (length (requests w) + k)) (perStep c) (signal c) u) = Inr v)"
  show "\<exists>w'. callModelTextRaw env c bound msgs state tag w = (Inr (v, False), w')
                \<and> map data (of_kind Retry (new_events w w')) = map (\<lambda>i. retry_data (int i + 1) (es i)) [0..<k]
                \<and> new_sleeps (ensureRateLimit c state w) w'
                    = map (\<lambda>i. min (retries_initial c * retries_factor c ^ i) (retries_maxDelay c)) [0..<k]
                \<and> length (new_requests w w') = k + 1
                \<and> length (of_kind ModelCallEnd (new_events w w')) = 1"
    using callModelTextRaw_miss [OF miss fails, of k "Inr v" bound state] a by simp
next
  assume b: "int k = retries_max c \<and> 0 < k"
  then obtain j where j: "k = Suc j" by (cases k) auto
  have "\<exists>w'. callModelTextRaw env c bound msgs state tag w = (map_sum id (\<lambda>v. (v, False)) (Inl (es j)), w')
      \<and> map data (of_kind Retry (new_events w w')) = map (\<lambda>i. retry_data (int i + 1) (es i)) [0..<j]
      \<and> new_sleeps (ensureRateLimit c state w) w'
          = map (\<lambda>i. min (retries_initial c * retries_factor c ^ i) (retries_maxDelay c)) [0..<j]
      \<and> length (new_requests w w') = j + 1
      \<and> length (of_kind ModelCallEnd (new_events w w')) = (if isl (Inl (es j) :: error + ai_message) then 0 else 1)"
  proof (rule callModelTextRaw_miss [OF miss])
    show "\<And>i u. i < j \<Longrightarrow> clock w \<le> clock u \<Longrightarrow>
        fst (withTimeout (invoke_reply env (length (requests w) + i)) (perStep c) (signal c) u) = Inl (es i)"
      using fails j by simp
    show "\<And>u. clock w \<le> clock u \<Longrightarrow>
        fst (withTimeout (invoke_reply env (length (requests w) + j)) (perStep c) (signal c) u) = Inl (es j)"
      using fails j by simp
    show "(\<exists>v. (Inl (es j) :: error + ai_message) = Inr v) \<or> retries_max c \<le> int j + 1" using b j by simp
    show "int j < retries_max c \<or> j = 0" using b j by simp
  qed
  then obtain w' where w': "callModelTextRaw env c bound msgs state tag w = (Inl (es j), w')"
      "map data (of_kind Retry (new_events w w')) = map (\<lambda>i. retry_data (int i + 1) (es i)) [0..<j]"
      "length (new_requests w w') = j + 1"
      "length (of_kind ModelCallEnd (new_events w w')) = 0" by auto
  have "length (of_kind Retry (new_events w w')) = j"
    using arg_cong [OF w'(2), of length] by simp
  then show "\<exists>w'. callModelTextRaw env c bound msgs state tag w = (Inl (es (k - 1)), w')
                \<and> length (of_kind Retry (new_events w w')) = k - 1
                \<and> length (new_requests w w') = k
                \<and> of_kind ModelCallEnd (new_events w w') = []"
    using w' j by simp
qed

lemma miss0: "fst (cache_get (responseCache world0) (nowMs world0) k) = None"
  by (simp add: world0_def cache_get_def)

theorem retry_bound_witness:
  "(\<exists>w'. callModelTextRaw flaky ctx0 [] [] state0 None world0 = (Inr (ok_message, False), w')
       \<and> map data (of_kind Retry (new_events world0 w')) = [retry_data 1 (Failure ''503'')]
       \<and> new_sleeps (ensureRateLimit ctx0 state0 world0) w' = [500]
       \<and> length (new_requests world0 w') = 2
       \<and> length (of_kind ModelCallEnd (new_events world0 w')) = 1)
   \<and> (\<exists>w'. callModelTextRaw down ctx0 [] [] state0 None world0 = (Inl (Failure ''503''), w')
       \<and> length (of_kind Retry (new_events world0 w')) = 2
       \<and> length (new_requests world0 w') = 3
       \<and> of_kind ModelCallEnd (new_events world0 w') = [])"
proof
  have f: "\<And>i u. i < 1 \<Longrightarrow> clock world0 \<le> clock u \<Longrightarrow>
      fst (withTimeout (invoke_reply flaky (length (requests world0) + i)) (perStep ctx0) (signal ctx0) u)
        = Inl (Failure ''503'')"
    by (simp add: flaky_def world0_def ctx0_def params0_def perStep_def withTimeout_def)
  have s: "int 1 < retries_max ctx0 \<and> (\<forall>u. clock world0 \<le> clock u \<longrightarrow>
      fst (withTimeout (invoke_reply flaky (length (requests world0) + 1)) (perStep ctx0) (signal ctx0) u)
        = Inr ok_message)"
    by (simp add: flaky_def world0_def ctx0_def params0_def perStep_def withTimeout_def retries_max_def)
  show "\<exists>w'. callModelTextRaw flaky ctx0 [] [] state0 None world0 = (Inr (ok_message, False), w')
       \<and> map data (of_kind Retry (new_events world0 w')) = [retry_data 1 (Failure ''503'')]
       \<and> new_sleeps (ensureRateLimit ctx0 state0 world0) w' = [500]
       \<and> length (new_requests world0 w') = 2
       \<and> length (of_kind ModelCallEnd (new_events world0 w')) = 1"
    using retry_bound [of world0 ctx0 None "[]" 1 flaky "\<lambda>_. Failure ''503''" ok_message "[]" state0, OF miss0 f] s
    by (auto simp: retries_initial_def retries_factor_def retries_maxDelay_def ctx0_def params0_def)
next
  have f: "\<And>i u. i < 3 \<Longrightarrow> clock world0 \<le> clock u \<Longrightarrow>
      fst (withTimeout (invoke_reply down (length (requests world0) + i)) (perStep ctx0) (signal ctx0) u)
        = Inl (Failure ''503'')"
    by (simp add: down_def world0_def ctx0_def params0_def perStep_def withTimeout_def)
  have s: "int 3 = retries_max ctx0 \<and> 0 < (3::nat)"
    by (simp add: ctx0_def params0_def retries_max_def)
  show "\<exists>w'. callModelTextRaw down ctx0 [] [] state0 None world0 = (Inl (Failure ''503''), w')
       \<and> length (of_kind Retry (new_events world0 w')) = 2
       \<and> length (new_requests world0 w') = 3
       \<and> of_kind ModelCallEnd (new_events world0 w') = []"
    using retry_bound [of world0 ctx0 None "[]" 3 down "\<lambda>_. Failure ''503''" ok_message "[]" state0, OF miss0 f] s
    by auto
qed

section \<open>The cache key and the cache\<close>

lemma unit_rank_inj: "unit_rank a = unit_rank b \<Longrightarrow> a = b"
proof -
  assume r: "unit_rank a = unit_rank b"
  define x y where "x = (of_char a :: int)" and "y = (of_char b :: int)"
  have "unit_rank a = (if 240 \<le> x \<and> x \<le> 244 then x - 2 else if x = 238 \<or> x = 239 then x + 5 else x)"
      "unit_rank b = (if 240 \<le> y \<and> y \<le> 244 then y - 2 else if y = 238 \<or> y = 239 then y + 5 else y)"
    by (simp_all only: unit_rank_def Let_def x_def y_def)
  then have "(if 240 \<le> x \<and> x \<le> 244 then x - 2 else if x = 238 \<or> x = 239 then x + 5 else x)
      = (if 240 \<le> y \<and> y \<le> 244 then y - 2 else if y = 238 \<or> y = 239 then y + 5 else y)"
    using r by (simp only:)
  then have "x = y" by (auto split: if_splits)
  then show "a = b" by (simp add: x_def y_def)
qed

lemma code_units_inj: "code_units p = code_units q \<Longrightarrow> fst p = fst q"
proof -
  assume "code_units p = code_units q"
  then have "map unit_rank (fst p) = map unit_rank (fst q)" by (simp add: code_units_def)
  moreover have "inj unit_rank" by (rule injI) (rule unit_rank_inj)
  ultimately show "fst p = fst q" by (simp add: inj_map_eq_map)
qed

lemma insort_key_map:
  assumes "\<And>x. g (f x) = g x"
  shows "insort_key g (f x) (map f xs) = map f (insort_key g x xs)"
  using assms by (induction xs) auto

lemma sort_key_map:
  assumes "\<And>x. g (f x) = g x"
  shows "sort_key g (map f xs) = map f (sort_key g xs)"
  using assms by (induction xs) (auto simp: insort_key_map)

lemma filter_key_distinct:
  "distinct (map g xs) \<Longrightarrow> k \<in> set xs \<Longrightarrow> filter (\<lambda>x. g k = g x) xs = [k]"
proof (induction xs)
  case Nil
  then show ?case by simp
next
  case (Cons x xs)
  show ?case
  proof (cases "k = x")
    case True
    have "filter (\<lambda>y. g x = g y) xs = []"
      using Cons.prems(1) by (auto simp: filter_empty_conv image_iff)
    with True show ?thesis by simp
  next
    case False
    with Cons.prems have "k \<in> set xs" by simp
    then have "g k \<noteq> g x" using Cons.prems(1) by (auto simp: image_iff)
    with Cons \<open>k \<in> set xs\<close> show ?thesis by simp
  qed
qed

lemma sort_key_perm:
  fixes g :: "'a \<Rightarrow> 'b :: linorder"
  assumes "mset xs = mset ys" and "distinct (map g xs)"
  shows "sort_key g xs = sort_key g ys"
proof -
  have dy: "distinct (map g ys)"
    using assms by (metis mset_eq_imp_distinct_iff mset_map)
  have sx: "set xs = set ys" using assms(1) by (rule mset_eq_setD)
  show ?thesis
  proof (rule sym, rule properties_for_sort_key)
    show "mset (sort_key g xs) = mset ys" using assms(1) by simp
    show "sorted (map g (sort_key g xs))" by simp
    fix k assume "k \<in> set (sort_key g xs)"
    then have k: "k \<in> set xs" "k \<in> set ys" using sx by simp_all
    have "distinct (map g (sort_key g xs))"
      using assms(2) by (metis distinct_map distinct_sort set_sort)
    then have "filter (\<lambda>x. g k = g x) (sort_key g xs) = [k]"
      using k by (intro filter_key_distinct) simp_all
    moreover have "filter (\<lambda>x. g k = g x) ys = [k]"
      using dy k by (intro filter_key_distinct)
    ultimately show "filter (\<lambda>x. g k = g x) (sort_key g xs) = filter (\<lambda>x. g k = g x) ys"
      by simp
  qed
qed

lemma distinct_code_units:
  "distinct (map fst kvs) \<Longrightarrow> distinct (map code_units kvs)"
proof (induction kvs)
  case Nil
  then show ?case by simp
next
  case (Cons kv kvs)
  have "code_units kv \<notin> code_units ` set kvs"
  proof
    assume "code_units kv \<in> code_units ` set kvs"
    then obtain q where "q \<in> set kvs" "code_units kv = code_units q" by auto
    then have "fst kv \<in> fst ` set kvs" using code_units_inj [of kv q] by force
    then show False using Cons.prems by simp
  qed
  then show ?case using Cons by simp
qed

lemma enumeration_map:
  fixes f :: "string \<times> 'a \<Rightarrow> string \<times> 'a"
  assumes "\<And>x. fst (f x) = fst x"
  shows "enumeration (map f xs) = map f (enumeration xs)"
proof -
  have a: "array_index (f x) = array_index x" for x
    using assms by (simp add: array_index_def)
  let ?g = "\<lambda>kv :: string \<times> 'a. case array_index kv of None \<Rightarrow> 0 :: int | Some i \<Rightarrow> i"
  have s: "sort_key ?g (map f ys) = map f (sort_key ?g ys)" for ys
    by (rule sort_key_map) (simp add: a)
  have "filter (\<lambda>kv. array_index kv \<noteq> None) (map f xs)
          = map f (filter (\<lambda>kv. array_index kv \<noteq> None) xs)"
      "filter (\<lambda>kv. array_index kv = None) (map f xs)
          = map f (filter (\<lambda>kv. array_index kv = None) xs)"
    by (simp_all add: filter_map o_def a)
  then show ?thesis
    unfolding enumeration_def by (simp only: s map_append)
qed

lemma sortKeys_same_props: "same_props a b \<Longrightarrow> sortKeys a = sortKeys b"
proof (induction rule: same_props.induct)
  case (sp_arr xs ys)
  then have "map sortKeys xs = map sortKeys ys"
    by (induction rule: list_all2_induct) auto
  then show ?case by simp
next
  case (sp_obj kvs kvs1 kvs2)
  let ?f = "\<lambda>kv :: string \<times> json. (fst kv, sortKeys (snd kv))"
  have m: "map ?f kvs = map ?f kvs1" and k: "map fst kvs = map fst kvs1"
    using sp_obj(1) by (induction rule: list_all2_induct) auto
  have cu: "code_units (?f x) = code_units x" for x by (simp add: code_units_def)
  have "distinct (map code_units kvs1)"
    using sp_obj(3) k by (intro distinct_code_units) simp
  then have "sort_key code_units kvs1 = sort_key code_units kvs2"
    using sp_obj(2) by (intro sort_key_perm) simp_all
  then have "map ?f (sort_key code_units kvs2) = sort_key code_units (map ?f kvs1)"
    using cu by (simp add: sort_key_map)
  also have "\<dots> = map ?f (sort_key code_units kvs)"
    using m cu by (simp add: sort_key_map [symmetric])
  finally show ?case by simp
qed simp_all

lemma stableStringify_same_props: "same_props a b \<Longrightarrow> stableStringify a = stableStringify b"
  by (simp add: stableStringify_def sortKeys_same_props)

lemma array_index_fst: "array_index (k, v :: json) = array_index (k, ())"
  by (simp add: array_index_def)

lemma code_units_fst: "code_units (k, v :: json) = code_units (k, ())"
  by (simp add: code_units_def)

lemma no_index:
  "array_index (''messages'', ()) = None" "array_index (''model'', ()) = None"
  "array_index (''tag'', ()) = None" "array_index (''temperature'', ()) = None"
  "array_index (''_type'', ()) = None" "array_index (''content'', ()) = None"
  "array_index (''name'', ()) = None"
  by code_simp+

lemma key_order:
  "code_units (''messages'', ()) \<le> code_units (''model'', ())"
  "code_units (''model'', ()) \<le> code_units (''tag'', ())"
  "code_units (''tag'', ()) \<le> code_units (''temperature'', ())"
  "code_units (''messages'', ()) \<le> code_units (''tag'', ())"
  "code_units (''messages'', ()) \<le> code_units (''temperature'', ())"
  "code_units (''model'', ()) \<le> code_units (''temperature'', ())"
  "\<not> code_units (''tag'', ()) \<le> code_units (''model'', ())"
  "\<not> code_units (''tag'', ()) \<le> code_units (''messages'', ())"
  "\<not> code_units (''model'', ()) \<le> code_units (''messages'', ())"
  "\<not> code_units (''temperature'', ()) \<le> code_units (''messages'', ())"
  "\<not> code_units (''temperature'', ()) \<le> code_units (''model'', ())"
  "\<not> code_units (''temperature'', ()) \<le> code_units (''tag'', ())"
  "code_units (''_type'', ()) \<le> code_units (''content'', ())"
  "code_units (''content'', ()) \<le> code_units (''name'', ())"
  "code_units (''_type'', ()) \<le> code_units (''name'', ())"
  by code_simp+

lemma sort_parts:
  fixes a b m t x y z :: json
  shows "sort_key code_units [(''tag'', a), (''model'', b), (''messages'', m)]
     = [(''messages'', m), (''model'', b), (''tag'', a)]"
  and "sort_key code_units [(''tag'', a), (''model'', b), (''temperature'', t), (''messages'', m)]
     = [(''messages'', m), (''model'', b), (''tag'', a), (''temperature'', t)]"
  and "sort_key code_units [(''_type'', x), (''content'', y)] = [(''_type'', x), (''content'', y)]"
  and "sort_key code_units [(''_type'', x), (''content'', y), (''name'', z)]
     = [(''_type'', x), (''content'', y), (''name'', z)]"
  by (simp_all add: code_units_fst key_order)

lemma enumeration_plain:
  "list_all (\<lambda>kv. array_index kv = None) kvs \<Longrightarrow> enumeration kvs = kvs"
  by (simp add: enumeration_def list_all_iff filter_empty_conv filter_id_conv)

lemma quoted:
  "quote ''messages'' = ''\"messages\"''" "quote ''model'' = ''\"model\"''"
  "quote ''tag'' = ''\"tag\"''" "quote ''temperature'' = ''\"temperature\"''"
  "quote ''_type'' = ''\"_type\"''" "quote ''content'' = ''\"content\"''"
  "quote ''name'' = ''\"name\"''"
  by code_simp+

lemma message_key_text: "stringify (sortKeys (key_message m)) = message_text m"
proof (cases "lc_name m")
  case None
  then show ?thesis
    by (simp add: key_message_def sort_parts enumeration_plain
        array_index_fst code_units_fst key_order no_index quoted message_text_def)
next
  case (Some n)
  then show ?thesis
    by (simp add: key_message_def sort_parts enumeration_plain
        array_index_fst code_units_fst key_order no_index quoted message_text_def)
qed

lemma stringify_messages:
  "map (\<lambda>x. stringify (sortKeys (key_message x))) msgs = map message_text msgs"
  by (simp add: message_key_text)

lemma key_text_makeCacheKey:
  "makeCacheKey (key_parts tag mdl temp msgs) = key_text tag mdl temp msgs"
proof (cases temp)
  case None
  then show ?thesis
    by (simp add: makeCacheKey_def stableStringify_def key_parts_def sort_parts enumeration_plain
        array_index_fst code_units_fst key_order no_index quoted key_text_def
        o_def message_key_text)
next
  case (Some d)
  then show ?thesis
    by (simp add: makeCacheKey_def stableStringify_def key_parts_def sort_parts enumeration_plain
        array_index_fst code_units_fst key_order no_index quoted key_text_def
        o_def message_key_text)
qed

lemma hex_char_inj:
  assumes "a < 16" "b < 16" "hex_char a = hex_char b"
  shows "a = b"
proof -
  have "(of_char (hex_char a) :: nat) = of_char (hex_char b)" using assms(3) by simp
  then show ?thesis using assms(1,2) by (auto simp: hex_char_def split: if_splits)
qed

lemma low_char:
  assumes "of_char a < (32 :: nat)" "of_char b < (32 :: nat)"
    and "hex_char (of_char a div 16) = hex_char (of_char b div 16)"
    and "hex_char (of_char a mod 16) = hex_char (of_char b mod 16)"
  shows "a = b"
proof -
  have "of_char a div 16 = (of_char b div 16 :: nat)"
    using assms(1,2,3) by (intro hex_char_inj) auto
  moreover have "of_char a mod 16 = (of_char b mod 16 :: nat)"
    using assms(4) by (intro hex_char_inj) auto
  ultimately have "(of_char a :: nat) = of_char b"
    by (metis div_mult_mod_eq)
  then show ?thesis by simp
qed

text \<open>The escapes form a prefix code, and none begins with a quotation mark.\<close>

lemma escape_char_shape:
  "(escape_char a = [a] \<and> a \<noteq> CHR 0x5C \<and> a \<noteq> CHR ''\"'')
   \<or> (\<exists>x. escape_char a = [CHR 0x5C, x] \<and> x \<noteq> CHR ''u'')
   \<or> (of_char a < (32 :: nat)
        \<and> escape_char a = [CHR 0x5C, CHR ''u'', CHR ''0'', CHR ''0'',
              hex_char (of_char a div 16), hex_char (of_char a mod 16)])"
  by (simp add: escape_char_def)

lemma escape_char_short:
  "escape_char a = [CHR 0x5C, x] \<Longrightarrow> escape_char b = [CHR 0x5C, x] \<Longrightarrow> a = b"
  by (auto simp: escape_char_def split: if_splits)

lemma escape_char_prefix:
  assumes "escape_char a @ r = escape_char b @ s"
  shows "a = b \<and> r = s"
proof -
  consider (p) "escape_char a = [a]" "a \<noteq> CHR 0x5C"
    | (e) x where "escape_char a = [CHR 0x5C, x]" "x \<noteq> CHR ''u''"
    | (u) "of_char a < (32 :: nat)"
        "escape_char a = [CHR 0x5C, CHR ''u'', CHR ''0'', CHR ''0'',
              hex_char (of_char a div 16), hex_char (of_char a mod 16)]"
    using escape_char_shape [of a] by blast
  then show ?thesis
  proof cases
    case p
    then show ?thesis using assms escape_char_shape [of b] by auto
  next
    case e
    then show ?thesis
      using assms escape_char_shape [of b] escape_char_short [of a x b] by auto
  next
    case u
    then show ?thesis
      using assms escape_char_shape [of b] low_char [of a b] by auto
  qed
qed

lemma escape_not_quote:
  "escape_char a @ r \<noteq> CHR ''\"'' # s" "CHR ''\"'' # s \<noteq> escape_char a @ r"
  using escape_char_shape [of a] by auto

lemma escaped_delimits:
  "concat (map escape_char a) @ CHR ''\"'' # r = concat (map escape_char b) @ CHR ''\"'' # s
     \<Longrightarrow> a = b \<and> r = s"
proof (induction a arbitrary: b)
  case Nil
  then show ?case using escape_not_quote by (cases b) auto
next
  case (Cons x xs)
  show ?case
  proof (cases b)
    case Nil
    then show ?thesis using Cons.prems escape_not_quote by auto
  next
    case (Cons y ys)
    then have "escape_char x @ (concat (map escape_char xs) @ CHR ''\"'' # r)
        = escape_char y @ (concat (map escape_char ys) @ CHR ''\"'' # s)"
      using Cons.prems by simp
    from escape_char_prefix [OF this] Cons.IH [of ys] Cons show ?thesis by simp
  qed
qed

lemma quote_delimits: "quote a @ r = quote b @ s \<Longrightarrow> a = b \<and> r = s"
  using escaped_delimits [of a r b s] by (simp add: quote_def)

lemma message_text_delimits:
  assumes "message_text m @ r = message_text n @ s"
  shows "key_message m = key_message n \<and> r = s"
proof -
  let ?opt = "\<lambda>x. case lc_name x of None \<Rightarrow> [] | Some k \<Rightarrow> '',\"name\":'' @ quote k"
  have 1: "quote (lc_type m) @ ('',\"content\":'' @ quote (lc_content m) @ ?opt m @ ''}'' @ r)
      = quote (lc_type n) @ ('',\"content\":'' @ quote (lc_content n) @ ?opt n @ ''}'' @ s)"
    using assms by (simp add: message_text_def)
  then have t: "lc_type m = lc_type n"
    and 2: "quote (lc_content m) @ (?opt m @ ''}'' @ r) = quote (lc_content n) @ (?opt n @ ''}'' @ s)"
    using quote_delimits [OF 1] by simp_all
  then have c: "lc_content m = lc_content n" and 3: "?opt m @ ''}'' @ r = ?opt n @ ''}'' @ s"
    using quote_delimits [OF 2] by simp_all
  have "lc_name m = lc_name n \<and> r = s"
  proof (cases "lc_name m")
    case None
    then show ?thesis using 3 by (cases "lc_name n") auto
  next
    case (Some k)
    show ?thesis
    proof (cases "lc_name n")
      case None
      then show ?thesis using 3 Some by auto
    next
      case (Some k')
      then have "quote k @ (''}'' @ r) = quote k' @ (''}'' @ s)"
        using 3 \<open>lc_name m = Some k\<close> by simp
      from quote_delimits [OF this] Some \<open>lc_name m = Some k\<close> show ?thesis by simp
    qed
  qed
  then show ?thesis using t c by (simp add: key_message_def)
qed

lemma message_text_brace: "\<exists>rest. message_text m = CHR ''{'' # rest"
  by (simp add: message_text_def)

lemma intersperse_Cons:
  "intersperse sep (x # xs) = x @ (if xs = [] then [] else sep @ intersperse sep xs)"
  by (cases xs) auto

lemma messages_delimit:
  "intersperse '','' (map message_text ms) @ CHR '']'' # r
      = intersperse '','' (map message_text ns) @ CHR '']'' # s
     \<Longrightarrow> map key_message ms = map key_message ns \<and> r = s"
proof (induction ms arbitrary: ns)
  case Nil
  show ?case
  proof (cases ns)
    case Nil
    then show ?thesis using Nil.prems by simp
  next
    case (Cons n ns')
    then show ?thesis
      using Nil.prems message_text_brace [of n] by (auto simp: intersperse_Cons)
  qed
next
  case (Cons m ms)
  show ?case
  proof (cases ns)
    case Nil
    then show ?thesis
      using Cons.prems message_text_brace [of m] by (auto simp: intersperse_Cons)
  next
    case c: (Cons n ns')
    let ?tail = "\<lambda>xs u. (if xs = [] then [] else '','' @ intersperse '','' (map message_text xs))
                   @ CHR '']'' # u"
    have "message_text m @ ?tail ms r = message_text n @ ?tail ns' s"
      using Cons.prems c by (simp add: intersperse_Cons)
    from message_text_delimits [OF this]
    have k: "key_message m = key_message n" and t: "?tail ms r = ?tail ns' s" by simp_all
    have "map key_message ms = map key_message ns' \<and> r = s"
    proof (cases "ms = []")
      case True
      then show ?thesis using t by (cases "ns' = []") auto
    next
      case False
      then have ne: "ns' \<noteq> []" using t by (cases "ns' = []") auto
      then have "intersperse '','' (map message_text ms) @ CHR '']'' # r
          = intersperse '','' (map message_text ns') @ CHR '']'' # s"
        using t False by simp
      then show ?thesis by (rule Cons.IH)
    qed
    then show ?thesis using k c by simp
  qed
qed

lemma key_text_inj:
  assumes "key_text tag mdl temp ms = key_text tag' mdl' temp' ms'"
  shows "tag = tag' \<and> mdl = mdl' \<and> map_option decimal_text temp = map_option decimal_text temp'
     \<and> map key_message ms = map key_message ms'"
proof -
  let ?t = "\<lambda>x. (case x of None \<Rightarrow> [] | Some d \<Rightarrow> '',\"temperature\":'' @ decimal_text d) @ ''}''"
  have "intersperse '','' (map message_text ms)
          @ CHR '']'' # ('',\"model\":'' @ quote mdl @ '',\"tag\":'' @ quote tag @ ?t temp)
      = intersperse '','' (map message_text ms')
          @ CHR '']'' # ('',\"model\":'' @ quote mdl' @ '',\"tag\":'' @ quote tag' @ ?t temp')"
    using assms by (simp add: key_text_def)
  from messages_delimit [OF this]
  have m: "map key_message ms = map key_message ms'"
    and 1: "quote mdl @ ('',\"tag\":'' @ quote tag @ ?t temp) = quote mdl' @ ('',\"tag\":'' @ quote tag' @ ?t temp')"
    by simp_all
  from quote_delimits [OF 1]
  have d: "mdl = mdl'" and 2: "quote tag @ ?t temp = quote tag' @ ?t temp'" by simp_all
  from quote_delimits [OF 2]
  have g: "tag = tag'" and 3: "?t temp = ?t temp'" by simp_all
  have "map_option decimal_text temp = map_option decimal_text temp'"
    using 3 by (cases temp; cases temp') auto
  then show ?thesis using m d g by simp
qed

lemma request_key_text:
  "request_key c tag msgs
     = key_text (case tag of None \<Rightarrow> ''text'' | Some t \<Rightarrow> t) (model (params c))
         (temperature (params c)) msgs"
  by (simp add: request_key_def key_text_makeCacheKey)

lemma key_text_cong:
  assumes "map_option decimal_text temp = map_option decimal_text temp'"
    and "map key_message ms = map key_message ms'"
  shows "key_text tag mdl temp ms = key_text tag mdl temp' ms'"
proof -
  have "message_text = (\<lambda>m. stringify (sortKeys (key_message m)))"
    by (rule ext) (simp add: message_key_text)
  then have "map message_text xs = map (\<lambda>j. stringify (sortKeys j)) (map key_message xs)" for xs
    by (simp add: o_def)
  then have "map message_text ms = map message_text ms'"
    using assms(2) by (simp only:)
  moreover have "(case temp of None \<Rightarrow> [] | Some d \<Rightarrow> '',\"temperature\":'' @ decimal_text d)
      = (case temp' of None \<Rightarrow> [] | Some d \<Rightarrow> '',\"temperature\":'' @ decimal_text d)"
    using assms(1) by (cases temp; cases temp') auto
  ultimately show ?thesis by (simp add: key_text_def)
qed

lemma request_key_eq_iff:
  "request_key c3 tag3 msgs3 = request_key c tag msgs \<longleftrightarrow>
     (case tag3 of None \<Rightarrow> ''text'' | Some t \<Rightarrow> t) = (case tag of None \<Rightarrow> ''text'' | Some t \<Rightarrow> t)
     \<and> model (params c3) = model (params c)
     \<and> map_option decimal_text (temperature (params c3))
         = map_option decimal_text (temperature (params c))
     \<and> map key_message msgs3 = map key_message msgs"
proof
  assume "request_key c3 tag3 msgs3 = request_key c tag msgs"
  then show "(case tag3 of None \<Rightarrow> ''text'' | Some t \<Rightarrow> t) = (case tag of None \<Rightarrow> ''text'' | Some t \<Rightarrow> t)
     \<and> model (params c3) = model (params c)
     \<and> map_option decimal_text (temperature (params c3))
         = map_option decimal_text (temperature (params c))
     \<and> map key_message msgs3 = map key_message msgs"
    unfolding request_key_text by (rule key_text_inj)
next
  assume a: "(case tag3 of None \<Rightarrow> ''text'' | Some t \<Rightarrow> t) = (case tag of None \<Rightarrow> ''text'' | Some t \<Rightarrow> t)
     \<and> model (params c3) = model (params c)
     \<and> map_option decimal_text (temperature (params c3))
         = map_option decimal_text (temperature (params c))
     \<and> map key_message msgs3 = map key_message msgs"
  then have "key_text (case tag of None \<Rightarrow> ''text'' | Some t \<Rightarrow> t) (model (params c))
           (temperature (params c3)) msgs3
      = key_text (case tag of None \<Rightarrow> ''text'' | Some t \<Rightarrow> t) (model (params c))
           (temperature (params c)) msgs"
    by (intro key_text_cong) simp_all
  then show "request_key c3 tag3 msgs3 = request_key c tag msgs"
    unfolding request_key_text using a by simp
qed

lemma cache_get_after_set:
  assumes "cache_ttl c = 0 \<or> t - now \<le> int (cache_ttl c)"
  shows "fst (cache_get (cache_set c now k v) t k) = Some v"
  using assms by (cases "cache_max c") (auto simp: cache_get_def cache_set_def Let_def stale_def)

text \<open>A hit: the cached message comes back, one event is emitted, nothing else moves.\<close>

lemma callModelTextRaw_hit:
  assumes "fst (cache_get (responseCache w) (nowMs w) (request_key c tag msgs)) = Some ai"
  shows "fst (callModelTextRaw env c bound msgs state tag w) = Inr (ai, True)
     \<and> map kind (new_events w (snd (callModelTextRaw env c bound msgs state tag w))) = [CacheHit]
     \<and> new_requests w (snd (callModelTextRaw env c bound msgs state tag w)) = []
     \<and> new_sleeps w (snd (callModelTextRaw env c bound msgs state tag w)) = []
     \<and> limiters (snd (callModelTextRaw env c bound msgs state tag w)) = limiters w
     \<and> clock (snd (callModelTextRaw env c bound msgs state tag w)) = clock w"
  using assms
  by (simp add: callModelTextRaw_def Let_def emit_def hit_event_def new_events_def
      new_requests_def new_sleeps_def)

lemma callModelTextRaw_stores:
  assumes first: "callModelTextRaw env c bound msgs state tag w = (Inr (ai, False), w1)"
    and fresh: "cache_ttl (responseCache w1) = 0 \<or> t - nowMs w1 \<le> int (cache_ttl (responseCache w1))"
  shows "fst (cache_get (responseCache w1) t (request_key c tag msgs)) = Some ai"
proof -
  define w0 where "w0 = w\<lparr>responseCache := snd (cache_get (responseCache w) (nowMs w) (request_key c tag msgs))\<rparr>"
  obtain r w2 where r: "retryAsync (timedInvoke env c bound msgs) c state (ensureRateLimit c state w0) = (r, w2)"
    by (cases "retryAsync (timedInvoke env c bound msgs) c state (ensureRateLimit c state w0)")
  have w1: "responseCache w1 = cache_set (responseCache w2) (nowMs w2) (request_key c tag msgs) ai"
      "nowMs w1 = nowMs w2"
    using first r
    by (auto simp: callModelTextRaw_def Let_def w0_def emit_def nowMs_def split: option.splits sum.splits)
  have "cache_ttl (responseCache w1) = cache_ttl (responseCache w2)"
    by (simp add: w1 cache_set_def Let_def)
  then show ?thesis
    using fresh w1 by (simp add: cache_get_after_set)
qed

lemma warm_key:
  "key_text ''plan'' ''gemini-1.5-pro'' (Some (Decimal 2 (- 1))) greeting
     = ''{\"messages\":[{\"_type\":\"system\",\"content\":\"be brief\"},{\"_type\":\"human\",\"content\":\"hi\"}],\"model\":\"gemini-1.5-pro\",\"tag\":\"plan\",\"temperature\":0.2}''"
  by code_simp

lemma cold_text: "map_option decimal_text (Some (Decimal 2 (- 1))) \<noteq> map_option decimal_text None"
  by simp

lemma sp_same:
  assumes "distinct (map fst kvs)" and "list_all (\<lambda>p. same_props (snd p) (snd p)) kvs"
  shows "same_props (JObj kvs) (JObj kvs)"
proof -
  have "list_all2 (\<lambda>p q. fst p = fst q \<and> same_props (snd p) (snd q)) kvs kvs"
    using assms(2) by (induction kvs) auto
  then show ?thesis by (rule sp_obj [OF _ refl assms(1)])
qed

text \<open>
  C5. The cache key is \<open>stableStringify\<close> of the phase tag (\<open>text\<close> when the caller
  gives none), the model id, the temperature and the message list (type, content and
  name of each message): it is the text \<open>key_text\<close>, and two requests have the same
  key exactly when they have the same tag, the same model id, the same temperature (as
  JavaScript prints the number, or both none) and the same messages. The key is the
  same whatever the order of the properties at any depth. After a call that went to
  the model and returned \<open>ai\<close>, the cache holds \<open>ai\<close> under that key until the time to
  live has passed; and a call with the same tag, model, temperature and messages made
  while the cache still holds \<open>ai\<close> returns \<open>ai\<close>, flagged as cached, emits the one
  event \<open>cache:hit\<close> (so no \<open>model:call:end\<close>, no \<open>retry\<close>, no \<open>ratelimit:delay\<close>),
  makes no request of the model, does not sleep and leaves the limiter as it is.
\<close>

theorem memoization:
  assumes first: "callModelTextRaw env c bound msgs state tag w = (Inr (ai, False), w1)"
    and same: "model (params c2) = model (params c) \<and> temperature (params c2) = temperature (params c)"
  shows "request_key c tag msgs
           = key_text (case tag of None \<Rightarrow> ''text'' | Some t \<Rightarrow> t) (model (params c))
               (temperature (params c)) msgs
       \<and> (\<forall>c3 tag3 msgs3. request_key c3 tag3 msgs3 = request_key c tag msgs \<longleftrightarrow>
              (case tag3 of None \<Rightarrow> ''text'' | Some t \<Rightarrow> t)
                 = (case tag of None \<Rightarrow> ''text'' | Some t \<Rightarrow> t)
              \<and> model (params c3) = model (params c)
              \<and> map_option decimal_text (temperature (params c3))
                  = map_option decimal_text (temperature (params c))
              \<and> map key_message msgs3 = map key_message msgs)
       \<and> (\<forall>obj. same_props (JObj (key_parts (case tag of None \<Rightarrow> ''text'' | Some t \<Rightarrow> t)
                   (model (params c)) (temperature (params c)) msgs)) obj
            \<longrightarrow> stableStringify obj = request_key c2 tag msgs)
       \<and> (\<forall>t. cache_ttl (responseCache w1) = 0 \<or> t - nowMs w1 \<le> int (cache_ttl (responseCache w1))
            \<longrightarrow> fst (cache_get (responseCache w1) t (request_key c2 tag msgs)) = Some ai)
       \<and> (fst (cache_get (responseCache w2) (nowMs w2) (request_key c2 tag msgs)) = Some ai
            \<longrightarrow> fst (callModelTextRaw env2 c2 bound2 msgs state2 tag w2) = Inr (ai, True)
              \<and> map kind (new_events w2 (snd (callModelTextRaw env2 c2 bound2 msgs state2 tag w2))) = [CacheHit]
              \<and> new_requests w2 (snd (callModelTextRaw env2 c2 bound2 msgs state2 tag w2)) = []
              \<and> new_sleeps w2 (snd (callModelTextRaw env2 c2 bound2 msgs state2 tag w2)) = []
              \<and> limiters (snd (callModelTextRaw env2 c2 bound2 msgs state2 tag w2)) = limiters w2)"
proof -
  have key: "request_key c2 tag msgs = request_key c tag msgs"
    using same by (simp add: request_key_def)
  have "stableStringify obj = request_key c2 tag msgs"
    if "same_props (JObj (key_parts (case tag of None \<Rightarrow> ''text'' | Some t \<Rightarrow> t)
                   (model (params c)) (temperature (params c)) msgs)) obj" for obj
    using stableStringify_same_props [OF that] same by (simp add: request_key_def makeCacheKey_def)
  moreover have "\<And>t. cache_ttl (responseCache w1) = 0 \<or> t - nowMs w1 \<le> int (cache_ttl (responseCache w1))
            \<Longrightarrow> fst (cache_get (responseCache w1) t (request_key c2 tag msgs)) = Some ai"
    using callModelTextRaw_stores [OF first] by (simp add: key)
  ultimately show ?thesis
    using callModelTextRaw_hit [of w2 c2 tag msgs ai env2 bound2 state2]
      request_key_text [of c tag msgs] request_key_eq_iff [of _ _ _ c tag msgs]
    by blast
qed

theorem memoization_witness:
  "request_key ctx_warm (Some ''plan'') greeting
     = ''{\"messages\":[{\"_type\":\"system\",\"content\":\"be brief\"},{\"_type\":\"human\",\"content\":\"hi\"}],\"model\":\"gemini-1.5-pro\",\"tag\":\"plan\",\"temperature\":0.2}''
   \<and> request_key ctx0 (Some ''plan'') greeting \<noteq> request_key ctx_warm (Some ''plan'') greeting
   \<and> request_key ctx_warm (Some ''plan'') [HumanMessage ''hi''] \<noteq> request_key ctx_warm (Some ''plan'') greeting
   \<and> stableStringify
        (JObj [(''messages'', JArr [JObj [(''content'', JStr ''be brief''), (''_type'', JStr ''system'')],
                                    JObj [(''_type'', JStr ''human''), (''content'', JStr ''hi'')]]),
               (''temperature'', JDec (Decimal 2 (- 1))), (''tag'', JStr ''plan''),
               (''model'', JStr ''gemini-1.5-pro'')])
       = request_key ctx_warm (Some ''plan'') greeting
   \<and> fst (callModelTextRaw down ctx_warm [] greeting state0 (Some ''plan'') after_warm) = Inr (ok_message, True)
   \<and> map kind (new_events after_warm (snd (callModelTextRaw down ctx_warm [] greeting state0 (Some ''plan'') after_warm))) = [CacheHit]
   \<and> new_requests after_warm (snd (callModelTextRaw down ctx_warm [] greeting state0 (Some ''plan'') after_warm)) = []
   \<and> new_sleeps after_warm (snd (callModelTextRaw down ctx_warm [] greeting state0 (Some ''plan'') after_warm)) = []"
proof -
  have p: "model (params ctx_warm) = ''gemini-1.5-pro''" "temperature (params ctx_warm) = Some (Decimal 2 (- 1))"
      "model (params ctx0) = ''gemini-1.5-pro''" "temperature (params ctx0) = None"
      "perStep ctx_warm = None" "signal ctx_warm = None"
    by (simp_all add: ctx_warm_def ctx0_def params0_def perStep_def)
  have "\<exists>w'. callModelTextRaw steady ctx_warm [] greeting state0 (Some ''plan'') world0
        = (map_sum id (\<lambda>v. (v, False)) (Inr ok_message), w')
      \<and> map data (of_kind Retry (new_events world0 w')) = map (\<lambda>i. retry_data (int i + 1) (Failure [])) [0..<0]
      \<and> new_sleeps (ensureRateLimit ctx_warm state0 world0) w'
          = map (\<lambda>i. min (retries_initial ctx_warm * retries_factor ctx_warm ^ i) (retries_maxDelay ctx_warm)) [0..<0]
      \<and> length (new_requests world0 w') = 0 + 1
      \<and> length (of_kind ModelCallEnd (new_events world0 w')) = (if isl (Inr ok_message :: error + ai_message) then 0 else 1)"
    by (rule callModelTextRaw_miss [OF miss0])
      (simp_all add: steady_def p withTimeout_def)
  then have first: "callModelTextRaw steady ctx_warm [] greeting state0 (Some ''plan'') world0 = (Inr (ok_message, False), after_warm)"
    by (auto simp: after_warm_def)
  have same: "model (params ctx_warm) = model (params ctx_warm) \<and> temperature (params ctx_warm) = temperature (params ctx_warm)"
    by simp
  have sys: "same_props (JObj [(''_type'', JStr ''system''), (''content'', JStr ''be brief'')])
      (JObj [(''content'', JStr ''be brief''), (''_type'', JStr ''system'')])"
    by (rule sp_obj [where ?kvs1.0 = "[(''_type'', JStr ''system''), (''content'', JStr ''be brief'')]"])
      (simp_all add: sp_str)
  have hum: "same_props (JObj [(''_type'', JStr ''human''), (''content'', JStr ''hi'')])
      (JObj [(''_type'', JStr ''human''), (''content'', JStr ''hi'')])"
    by (rule sp_same) (simp_all add: sp_str)
  have sp: "same_props (JObj (key_parts (case Some ''plan'' of None \<Rightarrow> ''text'' | Some t \<Rightarrow> t)
                   (model (params ctx_warm)) (temperature (params ctx_warm)) greeting))
      (JObj [(''messages'', JArr [JObj [(''content'', JStr ''be brief''), (''_type'', JStr ''system'')],
                                    JObj [(''_type'', JStr ''human''), (''content'', JStr ''hi'')]]),
               (''temperature'', JDec (Decimal 2 (- 1))), (''tag'', JStr ''plan''),
               (''model'', JStr ''gemini-1.5-pro'')])"
    unfolding key_parts_def p greeting_def key_message_def
    apply simp
    apply (rule sp_obj [where ?kvs1.0 = "[(''tag'', JStr ''plan''), (''model'', JStr ''gemini-1.5-pro''),
        (''temperature'', JDec (Decimal 2 (- 1))),
        (''messages'', JArr [JObj [(''content'', JStr ''be brief''), (''_type'', JStr ''system'')],
                             JObj [(''_type'', JStr ''human''), (''content'', JStr ''hi'')]])]"])
      apply (simp add: sp_str sp_dec sp_arr sys hum)
     apply simp
    apply simp
    done
  note m = memoization [OF first same, where ?w2.0 = after_warm and ?env2.0 = down
      and ?bound2.0 = "[]" and ?state2.0 = state0]
  have m1: "request_key ctx_warm (Some ''plan'') greeting
      = key_text ''plan'' ''gemini-1.5-pro'' (Some (Decimal 2 (- 1))) greeting"
    using m by (simp add: p)
  have m2: "request_key c3 tag3 msgs3 = request_key ctx_warm (Some ''plan'') greeting \<longleftrightarrow>
      (case tag3 of None \<Rightarrow> ''text'' | Some t \<Rightarrow> t) = ''plan''
      \<and> model (params c3) = ''gemini-1.5-pro''
      \<and> map_option decimal_text (temperature (params c3)) = map_option decimal_text (Some (Decimal 2 (- 1)))
      \<and> map key_message msgs3 = map key_message greeting" for c3 tag3 msgs3
    using m [THEN conjunct2, THEN conjunct1, THEN spec, THEN spec, THEN spec, of c3 tag3 msgs3]
    by (simp only: p option.case)
  have m3: "stableStringify obj = request_key ctx_warm (Some ''plan'') greeting"
    if "same_props (JObj (key_parts (case Some ''plan'' of None \<Rightarrow> ''text'' | Some t \<Rightarrow> t)
                   (model (params ctx_warm)) (temperature (params ctx_warm)) greeting)) obj" for obj
    using m that by blast
  have m4: "fst (cache_get (responseCache after_warm) (nowMs after_warm)
      (request_key ctx_warm (Some ''plan'') greeting)) = Some ok_message"
    using m [THEN conjunct2, THEN conjunct2, THEN conjunct2, THEN conjunct1, THEN spec, of "nowMs after_warm"]
    by simp
  have m5: "fst (callModelTextRaw down ctx_warm [] greeting state0 (Some ''plan'') after_warm) = Inr (ok_message, True)
      \<and> map kind (new_events after_warm (snd (callModelTextRaw down ctx_warm [] greeting state0 (Some ''plan'') after_warm))) = [CacheHit]
      \<and> new_requests after_warm (snd (callModelTextRaw down ctx_warm [] greeting state0 (Some ''plan'') after_warm)) = []
      \<and> new_sleeps after_warm (snd (callModelTextRaw down ctx_warm [] greeting state0 (Some ''plan'') after_warm)) = []"
    using m [THEN conjunct2, THEN conjunct2, THEN conjunct2, THEN conjunct2] m4 by simp
  have k1: "request_key ctx_warm (Some ''plan'') greeting
     = ''{\"messages\":[{\"_type\":\"system\",\"content\":\"be brief\"},{\"_type\":\"human\",\"content\":\"hi\"}],\"model\":\"gemini-1.5-pro\",\"tag\":\"plan\",\"temperature\":0.2}''"
    using m1 warm_key by simp
  have k2: "request_key ctx0 (Some ''plan'') greeting \<noteq> request_key ctx_warm (Some ''plan'') greeting"
    using m2 [of ctx0 "Some ''plan''" greeting] by (simp add: p)
  have k3: "request_key ctx_warm (Some ''plan'') [HumanMessage ''hi''] \<noteq> request_key ctx_warm (Some ''plan'') greeting"
    using m2 [of ctx_warm "Some ''plan''" "[HumanMessage ''hi'']"] by (simp add: greeting_def)
  have k4: "stableStringify
        (JObj [(''messages'', JArr [JObj [(''content'', JStr ''be brief''), (''_type'', JStr ''system'')],
                                    JObj [(''_type'', JStr ''human''), (''content'', JStr ''hi'')]]),
               (''temperature'', JDec (Decimal 2 (- 1))), (''tag'', JStr ''plan''),
               (''model'', JStr ''gemini-1.5-pro'')])
       = request_key ctx_warm (Some ''plan'') greeting"
    by (rule m3 [OF sp])
  show ?thesis using k1 k2 k3 k4 m5 by simp
qed

section \<open>Timeouts and cancellation in the retry loop\<close>

lemma withTimeout_deadline:
  "0 < m \<Longrightarrow> m < fst p \<Longrightarrow> fst (withTimeout p (Some m) None u) = Inl (TimeoutErr m)"
  by (simp add: withTimeout_def Let_def earlier_def timer_at_def abort_at_def)

lemma withTimeout_aborted:
  "a \<le> clock u \<Longrightarrow> fst (withTimeout p ms (Some (AbortSignal (Some a))) u) = Inl AbortedErr"
  by (simp add: withTimeout_def Let_def)

lemma callModelTextRaw_all_fail:
  assumes miss: "fst (cache_get (responseCache w) (nowMs w) (request_key c tag msgs)) = None"
    and max: "1 \<le> retries_max c"
    and fails: "\<And>i u. i < nat (retries_max c) \<Longrightarrow> clock w \<le> clock u \<Longrightarrow>
        fst (withTimeout (invoke_reply env (length (requests w) + i)) (perStep c) (signal c) u) = Inl e"
  shows "fst (callModelTextRaw env c bound msgs state tag w) = Inl e
     \<and> length (new_requests w (snd (callModelTextRaw env c bound msgs state tag w))) = nat (retries_max c)
     \<and> map data (of_kind Retry (new_events w (snd (callModelTextRaw env c bound msgs state tag w))))
         = map (\<lambda>i. retry_data (int i + 1) e) [0..<nat (retries_max c) - 1]"
proof -
  obtain j where j: "nat (retries_max c) = Suc j" using max by (cases "nat (retries_max c)") auto
  have "\<exists>w'. callModelTextRaw env c bound msgs state tag w = (map_sum id (\<lambda>v. (v, False)) (Inl e), w')
      \<and> map data (of_kind Retry (new_events w w')) = map (\<lambda>i. retry_data (int i + 1) e) [0..<j]
      \<and> new_sleeps (ensureRateLimit c state w) w'
          = map (\<lambda>i. min (retries_initial c * retries_factor c ^ i) (retries_maxDelay c)) [0..<j]
      \<and> length (new_requests w w') = j + 1
      \<and> length (of_kind ModelCallEnd (new_events w w')) = (if isl (Inl e :: error + ai_message) then 0 else 1)"
  proof (rule callModelTextRaw_miss [OF miss])
    show "\<And>i u. i < j \<Longrightarrow> clock w \<le> clock u \<Longrightarrow>
        fst (withTimeout (invoke_reply env (length (requests w) + i)) (perStep c) (signal c) u) = Inl e"
      using fails j by simp
    show "\<And>u. clock w \<le> clock u \<Longrightarrow>
        fst (withTimeout (invoke_reply env (length (requests w) + j)) (perStep c) (signal c) u) = Inl e"
      using fails j by simp
    show "(\<exists>v. (Inl e :: error + ai_message) = Inr v) \<or> retries_max c \<le> int j + 1" using j by linarith
    show "int j < retries_max c \<or> j = 0" using j by linarith
  qed
  then show ?thesis using j by auto
qed

text \<open>
  C2, as the code has it. A timeout or a cancellation is retried like any other error
  of the invocation. On a cache miss with a maximum attempt count of at least one:
  when every attempt exceeds the per-step deadline (no signal), the timeout error
  comes out of the call only after \<open>max\<close> requests of the model, with \<open>max - 1\<close> retry
  events carrying it; when the signal is aborted as the call starts, the same holds of
  the cancellation error.
\<close>

theorem timeouts_are_retried:
  assumes miss: "fst (cache_get (responseCache w) (nowMs w) (request_key c tag msgs)) = None"
    and max: "1 \<le> retries_max c"
  shows "(perStep c = Some m \<and> 0 < m \<and> signal c = None
            \<and> (\<forall>i < nat (retries_max c). m < fst (invoke_reply env (length (requests w) + i)))
          \<longrightarrow> fst (callModelTextRaw env c bound msgs state tag w) = Inl (TimeoutErr m)
             \<and> length (new_requests w (snd (callModelTextRaw env c bound msgs state tag w))) = nat (retries_max c)
             \<and> map data (of_kind Retry (new_events w (snd (callModelTextRaw env c bound msgs state tag w))))
                 = map (\<lambda>i. retry_data (int i + 1) (TimeoutErr m)) [0..<nat (retries_max c) - 1])
       \<and> (signal c = Some (AbortSignal (Some a)) \<and> a \<le> clock w
          \<longrightarrow> fst (callModelTextRaw env c bound msgs state tag w) = Inl AbortedErr
             \<and> length (new_requests w (snd (callModelTextRaw env c bound msgs state tag w))) = nat (retries_max c)
             \<and> map data (of_kind Retry (new_events w (snd (callModelTextRaw env c bound msgs state tag w))))
                 = map (\<lambda>i. retry_data (int i + 1) AbortedErr) [0..<nat (retries_max c) - 1])"
proof (intro conjI impI)
  assume a: "perStep c = Some m \<and> 0 < m \<and> signal c = None
            \<and> (\<forall>i < nat (retries_max c). m < fst (invoke_reply env (length (requests w) + i)))"
  have "\<And>i u. i < nat (retries_max c) \<Longrightarrow> clock w \<le> clock u \<Longrightarrow>
        fst (withTimeout (invoke_reply env (length (requests w) + i)) (perStep c) (signal c) u) = Inl (TimeoutErr m)"
    using a by (simp add: withTimeout_deadline)
  from callModelTextRaw_all_fail [OF miss max this, of bound state]
  show "fst (callModelTextRaw env c bound msgs state tag w) = Inl (TimeoutErr m)"
    and "length (new_requests w (snd (callModelTextRaw env c bound msgs state tag w))) = nat (retries_max c)"
    and "map data (of_kind Retry (new_events w (snd (callModelTextRaw env c bound msgs state tag w))))
                 = map (\<lambda>i. retry_data (int i + 1) (TimeoutErr m)) [0..<nat (retries_max c) - 1]"
    by simp_all
next
  assume a: "signal c = Some (AbortSignal (Some a)) \<and> a \<le> clock w"
  have "\<And>i u. i < nat (retries_max c) \<Longrightarrow> clock w \<le> clock u \<Longrightarrow>
        fst (withTimeout (invoke_reply env (length (requests w) + i)) (perStep c) (signal c) u) = Inl AbortedErr"
    using a by (simp add: withTimeout_aborted)
  from callModelTextRaw_all_fail [OF miss max this, of bound state]
  show "fst (callModelTextRaw env c bound msgs state tag w) = Inl AbortedErr"
    and "length (new_requests w (snd (callModelTextRaw env c bound msgs state tag w))) = nat (retries_max c)"
    and "map data (of_kind Retry (new_events w (snd (callModelTextRaw env c bound msgs state tag w))))
                 = map (\<lambda>i. retry_data (int i + 1) AbortedErr) [0..<nat (retries_max c) - 1]"
    by simp_all
qed

theorem timeouts_are_retried_witness:
  "fst (callModelTextRaw slow ctx_deadline [] [] state0 None world0) = Inl (TimeoutErr 100)
   \<and> length (new_requests world0 (snd (callModelTextRaw slow ctx_deadline [] [] state0 None world0))) = 3
   \<and> map data (of_kind Retry (new_events world0 (snd (callModelTextRaw slow ctx_deadline [] [] state0 None world0))))
       = [retry_data 1 (TimeoutErr 100), retry_data 2 (TimeoutErr 100)]
   \<and> fst (callModelTextRaw steady ctx_aborted [] [] state0 None world0) = Inl AbortedErr
   \<and> length (new_requests world0 (snd (callModelTextRaw steady ctx_aborted [] [] state0 None world0))) = 3
   \<and> map data (of_kind Retry (new_events world0 (snd (callModelTextRaw steady ctx_aborted [] [] state0 None world0))))
       = [retry_data 1 AbortedErr, retry_data 2 AbortedErr]"
proof -
  have m1: "1 \<le> retries_max ctx_deadline" "nat (retries_max ctx_deadline) = 3"
    and m2: "1 \<le> retries_max ctx_aborted" "nat (retries_max ctx_aborted) = 3"
    by (simp_all add: retries_max_def ctx_deadline_def ctx_aborted_def ctx0_def params0_def)
  have h1: "perStep ctx_deadline = Some 100 \<and> 0 < (100::nat) \<and> signal ctx_deadline = None
            \<and> (\<forall>i < nat (retries_max ctx_deadline). 100 < fst (invoke_reply slow (length (requests world0) + i)))"
    by (simp add: perStep_def ctx_deadline_def ctx0_def params0_def slow_def)
  have h2: "signal ctx_aborted = Some (AbortSignal (Some 900)) \<and> 900 \<le> clock world0"
    by (simp add: ctx_aborted_def ctx0_def world0_def)
  have u: "[0..<2] = [0, 1::nat]" by (simp add: numeral_2_eq_2)
  show ?thesis
    using timeouts_are_retried [OF miss0 m1(1), where tag = None and msgs = "[]" and m = 100
        and env = slow and bound = "[]" and state = state0] h1
      timeouts_are_retried [OF miss0 m2(1), where tag = None and msgs = "[]" and a = 900
        and env = steady and bound = "[]" and state = state0] h2
    by (simp add: m1 m2 u)
qed

text \<open>
  C2, as stated, fails: with a per-step deadline of 100 ms and the default policy
  (three attempts), a first reply that takes 500 ms raises the timeout error; a retry
  event is emitted for it, a second request is made, and the call succeeds.
\<close>

theorem timeout_is_retried:
  "fst (timedInvoke slow_once ctx_deadline [] [] world0) = Inl (TimeoutErr 100)
   \<and> fst (callModelTextRaw slow_once ctx_deadline [] [] state0 None world0) = Inr (ok_message, False)
   \<and> map data (of_kind Retry (new_events world0 (snd (callModelTextRaw slow_once ctx_deadline [] [] state0 None world0))))
       = [retry_data 1 (TimeoutErr 100)]
   \<and> length (new_requests world0 (snd (callModelTextRaw slow_once ctx_deadline [] [] state0 None world0))) = 2"
proof -
  have p: "perStep ctx_deadline = Some 100" "signal ctx_deadline = None" "retries_max ctx_deadline = 3"
    by (simp_all add: perStep_def retries_max_def ctx_deadline_def ctx0_def params0_def)
  have "\<exists>w'. callModelTextRaw slow_once ctx_deadline [] [] state0 None world0
        = (map_sum id (\<lambda>v. (v, False)) (Inr ok_message), w')
      \<and> map data (of_kind Retry (new_events world0 w')) = map (\<lambda>i. retry_data (int i + 1) (TimeoutErr 100)) [0..<1]
      \<and> new_sleeps (ensureRateLimit ctx_deadline state0 world0) w'
          = map (\<lambda>i. min (retries_initial ctx_deadline * retries_factor ctx_deadline ^ i) (retries_maxDelay ctx_deadline)) [0..<1]
      \<and> length (new_requests world0 w') = 1 + 1
      \<and> length (of_kind ModelCallEnd (new_events world0 w')) = (if isl (Inr ok_message :: error + ai_message) then 0 else 1)"
    by (rule callModelTextRaw_miss [OF miss0])
      (simp_all add: p slow_once_def world0_def withTimeout_def Let_def earlier_def timer_at_def abort_at_def)
  moreover have "fst (timedInvoke slow_once ctx_deadline [] [] world0) = Inl (TimeoutErr 100)"
    by (simp add: timedInvoke_fst p slow_once_def world0_def withTimeout_deadline)
  ultimately show ?thesis by auto
qed

section \<open>The validate phase\<close>

lemma strip_Nil: "strip ps [] = []"
proof -
  have "find (\<lambda>p. p \<noteq> [] \<and> take (length p) ([] :: string) = p) ps = None"
    by (auto simp: find_None_iff)
  then show ?thesis by (subst strip.simps) simp
qed

lemma trim_Nil: "trim [] = []"
  by (simp add: trim_def strip_Nil)

lemma nonblank_iff: "nonblank cand \<longleftrightarrow> (\<exists>s. cand = Some s \<and> trim s \<noteq> [])"
  by (cases cand) (auto simp: nonblank_def trim_Nil)

text \<open>
  C3. The validate phase. When the input declares a schema, it makes one request of
  the model, for a structured value (on a model with no tool bound), and if the
  request returns a value it sets the validity flag to true, whatever the value, and
  keeps the value as the final object; if the request throws, so does the phase. When
  the input declares no schema, it makes no request, and sets the validity flag to
  true if and only if the candidate answer is not empty after trimming.
\<close>

theorem validate_flag:
  "(\<forall>schema. declared_schema (input state) = Some schema \<longrightarrow>
       (\<exists>msgs. new_requests w (snd (validate_node lit env c state w)) = [StructuredRequest schema msgs])
       \<and> (case snd (structured_reply env (length (requests w))) of
            Inl e \<Rightarrow> fst (validate_node lit env c state w) = Inl e
          | Inr obj \<Rightarrow> fst (validate_node lit env c state w)
                        = Inr (state\<lparr>isValid := Some True, finalObject := Some obj\<rparr>)))
   \<and> (declared_schema (input state) = None \<longrightarrow>
       new_requests w (snd (validate_node lit env c state w)) = []
       \<and> fst (validate_node lit env c state w)
           = Inr (state\<lparr>isValid := Some (\<exists>s. candidateAnswer state = Some s \<and> trim s \<noteq> [])\<rparr>))"
  by (auto simp: validate_node_def Let_def invokeWithStructuredOutput_def beforeNode_def afterNode_def
      emit_def new_requests_def nonblank_iff split: sum.splits prod.splits)

section \<open>What a model call and a node leave alone\<close>

lemma extends_refl: "extends c w w"
  by (simp add: extends_def)

lemma extends_trans:
  assumes "extends c w w1" and "extends c w1 w2"
  shows "extends c w w2"
proof -
  obtain e1 where e1: "events w1 = events w @ e1" "\<forall>e\<in>set e1. kind e \<in> policy_kinds"
    using assms(1) by (auto simp: extends_def)
  obtain e2 where e2: "events w2 = events w1 @ e2" "\<forall>e\<in>set e2. kind e \<in> policy_kinds"
    using assms(2) by (auto simp: extends_def)
  have "events w2 = events w @ (e1 @ e2)" "\<forall>e\<in>set (e1 @ e2). kind e \<in> policy_kinds"
    using e1 e2 by auto
  then have "\<exists>evs. events w2 = events w @ evs \<and> (\<forall>e\<in>set evs. kind e \<in> policy_kinds)"
    by blast
  moreover have "next_limiter w2 = next_limiter w"
      "\<forall>a. a \<noteq> limiter c \<longrightarrow> limiters w2 a = limiters w a"
      "clock w \<le> clock w2" "length (requests w) \<le> length (requests w2)"
    using assms by (simp_all add: extends_def)
  ultimately show ?thesis by (simp add: extends_def)
qed

lemma timedInvoke_next: "next_limiter (snd (timedInvoke env c bound ms u)) = next_limiter u"
  by (auto simp: timedInvoke_def invokeText_def withTimeout_def Let_def split: prod.splits option.splits)

lemma timedInvoke_extends: "extends c u (snd (timedInvoke env c bound ms u))"
  using timedInvoke_clock [of u env c bound ms]
  by (simp add: extends_def timedInvoke_events timedInvoke_next
      timedInvoke_limiters timedInvoke_requests)

lemma timedInvoke_Inr:
  "fst (timedInvoke env c bound ms u) = Inr v \<Longrightarrow> snd (invoke_reply env (length (requests u))) = Inr v"
  by (auto simp: timedInvoke_def invokeText_def withTimeout_def Let_def split: prod.splits option.splits if_splits)

lemma emit_policy_extends: "kind e \<in> policy_kinds \<Longrightarrow> extends c w (emit e w)"
  by (simp add: extends_def emit_def)

lemma sleep_extends: "extends c w (sleep ms w)"
  by (simp add: extends_def sleep_def)

lemma retry_loop_extends:
  "retry_loop c state (timedInvoke env c' bound ms) a d w = (r, w') \<Longrightarrow>
     extends c' w w' \<and> responseCache w' = responseCache w
     \<and> limiters w' = limiters w
     \<and> (\<forall>v. r = Inr v \<longrightarrow> (\<exists>n. snd (invoke_reply env n) = Inr v))"
proof (induction c state "timedInvoke env c' bound ms" a d w arbitrary: r w' rule: retry_loop.induct)
  case (1 c state attempt delay w)
  obtain x w1 where f: "timedInvoke env c' bound ms w = (x, w1)"
    by (cases "timedInvoke env c' bound ms w")
  have e1: "extends c' w w1" "responseCache w1 = responseCache w" "limiters w1 = limiters w"
    using timedInvoke_extends [of c' w env bound ms] timedInvoke_cache [of env c' bound ms w]
      timedInvoke_limiters [of env c' bound ms w] f by simp_all
  show ?case
  proof (cases x)
    case (Inr v)
    then have "r = Inr v" "w' = w1" using 1(2) f by (simp_all add: retry_loop.simps)
    then show ?thesis using e1 timedInvoke_Inr [of env c' bound ms w v] f Inr by auto
  next
    case (Inl e)
    show ?thesis
    proof (cases "attempt + 1 \<ge> retries_max c")
      case True
      then have "r = Inl e" "w' = w1" using 1(2) f Inl by (simp_all add: retry_loop.simps)
      then show ?thesis using e1 by auto
    next
      case False
      let ?w2 = "sleep (min delay (retries_maxDelay c)) (emit (retry_event state (attempt + 1) e w1) w1)"
      have rec: "retry_loop c state (timedInvoke env c' bound ms) (attempt + 1) (delay * retries_factor c) ?w2 = (r, w')"
        using 1(2) f Inl False by (simp add: retry_loop.simps)
      have ih: "extends c' ?w2 w' \<and> responseCache w' = responseCache ?w2 \<and> limiters w' = limiters ?w2
          \<and> (\<forall>v. r = Inr v \<longrightarrow> (\<exists>n. snd (invoke_reply env n) = Inr v))"
        using 1(1) [OF f [symmetric] Inl False rec] by simp
      have "extends c' w1 ?w2"
        by (intro extends_trans [OF emit_policy_extends sleep_extends])
          (simp add: retry_event_def policy_kinds_def)
      then have "extends c' w w'" using e1(1) ih extends_trans by blast
      moreover have "responseCache ?w2 = responseCache w" "limiters ?w2 = limiters w"
        using e1 by (simp_all add: sleep_def emit_def)
      ultimately show ?thesis using ih by simp
    qed
  qed
qed

lemma cache_get_entries: "set (entries (snd (cache_get c now k))) \<subseteq> set (entries c)"
  by (auto simp: cache_get_def dest: map_of_SomeD split: option.splits)

lemma cache_get_Some: "fst (cache_get c now k) = Some v \<Longrightarrow> \<exists>t. (k, v, t) \<in> set (entries c)"
  by (auto simp: cache_get_def split: option.splits if_splits dest!: map_of_SomeD)

lemma cache_set_entries: "set (entries (cache_set c now k v)) \<subseteq> insert (k, v, now) (set (entries c))"
  by (auto simp: cache_set_def Let_def dest: in_set_takeD)

lemma ensureRateLimit_extends: "extends c w (ensureRateLimit c st w)"
  by (auto simp: ensureRateLimit_def extends_def Let_def sleep_def emit_def delay_event_def
      policy_kinds_def nowMs_def split: option.splits)

lemma callModelTextRaw_extends:
  assumes "callModelTextRaw env c bound msgs state tag w = (r, w')"
  shows "extends c w w'"
    and "cached_all P w \<Longrightarrow> (\<And>n v. snd (invoke_reply env n) = Inr v \<Longrightarrow> P v)
          \<Longrightarrow> cached_all P w' \<and> (\<forall>ai fc. r = Inr (ai, fc) \<longrightarrow> P ai)"
proof -
  let ?key = "request_key c tag msgs"
  define w0 where "w0 = w\<lparr>responseCache := snd (cache_get (responseCache w) (nowMs w) ?key)\<rparr>"
  have e0: "extends c w w0" by (simp add: extends_def w0_def)
  have c0: "cached_all P w \<Longrightarrow> cached_all P w0" for P
    using cache_get_entries [of "responseCache w" "nowMs w" ?key]
    by (auto simp: cached_all_def w0_def)
  show "extends c w w'"
    and "cached_all P w \<Longrightarrow> (\<And>n v. snd (invoke_reply env n) = Inr v \<Longrightarrow> P v)
          \<Longrightarrow> cached_all P w' \<and> (\<forall>ai fc. r = Inr (ai, fc) \<longrightarrow> P ai)"
  proof (atomize (full), cases "fst (cache_get (responseCache w) (nowMs w) ?key)")
    case (Some cached)
    then have r: "r = Inr (cached, True)" "w' = emit (hit_event state ?key w0) w0"
      using assms by (simp_all add: callModelTextRaw_def Let_def w0_def)
    have "extends c w0 w'" unfolding r
      by (rule emit_policy_extends) (simp add: hit_event_def policy_kinds_def)
    then have "extends c w w'" using e0 extends_trans by blast
    moreover have "responseCache w' = responseCache w0" by (simp add: r emit_def)
    moreover have "cached_all P w \<Longrightarrow> P cached"
      using cache_get_Some [OF Some] by (force simp: cached_all_def)
    ultimately show "extends c w w' \<and> (cached_all P w \<longrightarrow> (\<forall>n v. snd (invoke_reply env n) = Inr v \<longrightarrow> P v)
          \<longrightarrow> cached_all P w' \<and> (\<forall>ai fc. r = Inr (ai, fc) \<longrightarrow> P ai))"
      using c0 [of P] r by (simp add: cached_all_def)
  next
    case None
    define w1 where "w1 = ensureRateLimit c state w0"
    obtain x w2 where loop: "retry_loop c state (timedInvoke env c bound msgs) 0 (retries_initial c) w1 = (x, w2)"
      by (cases "retry_loop c state (timedInvoke env c bound msgs) 0 (retries_initial c) w1")
    have e1: "extends c w0 w1" "responseCache w1 = responseCache w0"
      using ensureRateLimit_extends [of c w0 state] ensureRateLimit_cache [of c state w0]
      by (simp_all add: w1_def)
    have e2: "extends c w1 w2" "responseCache w2 = responseCache w1"
        "\<forall>v. x = Inr v \<longrightarrow> (\<exists>n. snd (invoke_reply env n) = Inr v)"
      using retry_loop_extends [OF loop] by simp_all
    have e02: "extends c w w2" using e0 e1(1) e2(1) extends_trans by blast
    show "extends c w w' \<and> (cached_all P w \<longrightarrow> (\<forall>n v. snd (invoke_reply env n) = Inr v \<longrightarrow> P v)
          \<longrightarrow> cached_all P w' \<and> (\<forall>ai fc. r = Inr (ai, fc) \<longrightarrow> P ai))"
    proof (cases x)
      case (Inl e)
      then have "r = Inl e" "w' = w2"
        using assms None loop by (simp_all add: callModelTextRaw_def Let_def w0_def w1_def retryAsync_def)
      then show ?thesis using e02 e1(2) e2(2) c0 [of P] by (simp add: cached_all_def)
    next
      case (Inr ai)
      define w3 where "w3 = w2\<lparr>responseCache := cache_set (responseCache w2) (nowMs w2) ?key ai\<rparr>"
      have r: "r = Inr (ai, False)" "w' = emit (call_end_event state w3) w3"
        using assms None loop Inr
        by (simp_all add: callModelTextRaw_def Let_def w0_def w1_def w3_def retryAsync_def)
      have "extends c w2 w3" by (simp add: extends_def w3_def)
      moreover have "extends c w3 w'" unfolding r
        by (rule emit_policy_extends) (simp add: call_end_event_def policy_kinds_def)
      ultimately have "extends c w w'" using e02 extends_trans by blast
      moreover have "cached_all P w' \<and> P ai"
        if "cached_all P w" "\<forall>n v. snd (invoke_reply env n) = Inr v \<longrightarrow> P v"
      proof -
        have "P ai" using e2(3) Inr that(2) by blast
        moreover have "cached_all P w2" using c0 [OF that(1)] e1(2) e2(2) by (simp add: cached_all_def)
        ultimately show ?thesis
          using cache_set_entries [of "responseCache w2" "nowMs w2" ?key ai]
          by (auto simp: cached_all_def r w3_def emit_def)
      qed
      ultimately show ?thesis using r by blast
    qed
  qed
qed

lemma timedInvoke_plain:
  "perStep c = None \<Longrightarrow> signal c = None \<Longrightarrow>
     fst (timedInvoke env c bound ms u) = snd (invoke_reply env (length (requests u)))"
  by (simp add: timedInvoke_def invokeText_def withTimeout_def Let_def)

lemma callModelTextRaw_succeeds:
  assumes ok: "\<And>n. \<exists>v. snd (invoke_reply env n) = Inr v"
    and plain: "perStep c = None" "signal c = None"
  shows "\<exists>ai fc w'. callModelTextRaw env c bound msgs state tag w = (Inr (ai, fc), w')"
proof (cases "fst (cache_get (responseCache w) (nowMs w) (request_key c tag msgs))")
  case (Some cached)
  then have "callModelTextRaw env c bound msgs state tag w
      = (Inr (cached, True), emit (hit_event state (request_key c tag msgs)
           (w\<lparr>responseCache := snd (cache_get (responseCache w) (nowMs w) (request_key c tag msgs))\<rparr>))
           (w\<lparr>responseCache := snd (cache_get (responseCache w) (nowMs w) (request_key c tag msgs))\<rparr>))"
    by (simp add: callModelTextRaw_def Let_def)
  then show ?thesis by blast
next
  case None
  define w1 where "w1 = ensureRateLimit c state
      (w\<lparr>responseCache := snd (cache_get (responseCache w) (nowMs w) (request_key c tag msgs))\<rparr>)"
  obtain v where v: "snd (invoke_reply env (length (requests w1))) = Inr v" using ok by blast
  obtain x u where t: "timedInvoke env c bound msgs w1 = (x, u)" by (cases "timedInvoke env c bound msgs w1")
  have "x = Inr v" using timedInvoke_plain [OF plain, of env bound msgs w1] t v by simp
  then have "retry_loop c state (timedInvoke env c bound msgs) 0 (retries_initial c) w1 = (Inr v, u)"
    using t by (simp add: retry_loop.simps)
  then have "fst (callModelTextRaw env c bound msgs state tag w) = Inr (v, False)"
    using None by (simp add: callModelTextRaw_def Let_def retryAsync_def w1_def)
  then show ?thesis by (metis prod.collapse)
qed

lemma node_trace_append: "node_trace (xs @ ys) = node_trace xs @ node_trace ys"
  by (simp add: node_trace_def)

lemma node_trace_policy: "\<forall>e\<in>set evs. kind e \<in> policy_kinds \<Longrightarrow> node_trace evs = []"
  by (auto simp: node_trace_def policy_kinds_def filter_empty_conv)

lemma memory_append_extends: "extends c w (memory_append rid ms w)"
  by (simp add: extends_def memory_append_def Let_def)

lemma structured_extends: "extends c w (snd (invokeWithStructuredOutput env ms schema w))"
  by (simp add: extends_def invokeWithStructuredOutput_def Let_def)

lemma shape_fail:
  assumes "extends c (beforeNode (node_name n) c st w) wk"
  shows "node_shape c n st w (Inl e, wk)"
proof -
  obtain inner where i: "events wk = events w @ [node_event NodeEnter (node_name n) st [] w] @ inner"
      "\<forall>e\<in>set inner. kind e \<in> policy_kinds"
    using assms by (auto simp: extends_def beforeNode_def emit_def)
  have "node_trace inner = []" using i(2) by (rule node_trace_policy)
  moreover have "node_trace [node_event NodeEnter (node_name n) st [] w] = [entered n (step st)]"
    by (simp add: node_trace_def phase_tag_def node_event_def entered_def)
  moreover have "new_events w wk = [node_event NodeEnter (node_name n) st [] w] @ inner"
    using i(1) by (simp add: new_events_def)
  ultimately have "node_trace (new_events w wk) = [entered n (step st)]"
    by (simp only: node_trace_append) simp
  moreover have "\<exists>inner closing.
           new_events w wk = node_event NodeEnter (node_name n) st [] w # inner @ closing
           \<and> (\<forall>e\<in>set inner. kind e \<in> policy_kinds) \<and> closing = []"
    using i by (simp add: new_events_def)
  ultimately show ?thesis
    using assms i(1) by (simp add: node_shape_def extends_def beforeNode_def emit_def)
qed

lemma shape_ok:
  assumes "extends c (beforeNode (node_name n) c st w) wk"
  shows "node_shape c n st w (Inr st', afterNode (node_name n) c st extra wk)"
proof -
  obtain inner where i: "events wk = events w @ [node_event NodeEnter (node_name n) st [] w] @ inner"
      "\<forall>e\<in>set inner. kind e \<in> policy_kinds"
    using assms by (auto simp: extends_def beforeNode_def emit_def)
  have "node_trace inner = []" using i(2) by (rule node_trace_policy)
  moreover have "node_trace [node_event NodeEnter (node_name n) st [] w] = [entered n (step st)]"
      "node_trace [node_event NodeExit (node_name n) st extra wk] = [exited n (step st)]"
    by (simp_all add: node_trace_def phase_tag_def node_event_def entered_def exited_def)
  moreover have "new_events w (afterNode (node_name n) c st extra wk)
      = [node_event NodeEnter (node_name n) st [] w] @ inner
        @ [node_event NodeExit (node_name n) st extra wk]"
    using i(1) by (simp add: new_events_def afterNode_def emit_def)
  ultimately have "node_trace (new_events w (afterNode (node_name n) c st extra wk))
      = [entered n (step st), exited n (step st)]"
    by (simp only: node_trace_append) simp
  moreover have "\<exists>inner closing.
           new_events w (afterNode (node_name n) c st extra wk)
             = node_event NodeEnter (node_name n) st [] w # inner @ closing
           \<and> (\<forall>e\<in>set inner. kind e \<in> policy_kinds)
           \<and> (\<exists>extra wk. closing = [node_event NodeExit (node_name n) st extra wk])"
    using i by (auto simp: new_events_def afterNode_def emit_def)
  ultimately show ?thesis
    using assms i(1) by (simp add: node_shape_def extends_def beforeNode_def afterNode_def emit_def)
qed

lemma plan_node_shape: "node_shape c Plan st w (plan_node lit env c st w)"
proof -
  let ?w1 = "beforeNode ''plan'' c st w"
  let ?msgs = "toLCMessages (Some (buildSystemPrompt lit (systemPrompt (params c)))) (getHistory ?w1 (runId st))
                     @ [HumanMessage (join_lines (plan_lines lit @ [task_prefix lit @ normalizeTask (input st)]))]"
  obtain r w2 where call: "callModelText env c ?msgs st (Some ''plan'') ?w1 = (r, w2)"
    by (cases "callModelText env c ?msgs st (Some ''plan'') ?w1")
  then have e: "extends c ?w1 w2"
    using callModelTextRaw_extends(1) by (simp add: callModelText_def)
  show ?thesis
  proof (cases r)
    case (Inl e')
    then have "plan_node lit env c st w = (Inl e', w2)"
      using call by (simp add: plan_node_def Let_def)
    then show ?thesis using shape_fail [of c Plan st w w2 e'] e by simp
  next
    case (Inr p)
    obtain ai fc where p: "p = (ai, fc)" by (cases p)
    let ?w3 = "memory_append (runId st) [user_message (normalizeTask (input st)), assistant_message (ai_content ai)] w2"
    have "extends c ?w1 ?w3" using e memory_append_extends extends_trans by blast
    moreover have "plan_node lit env c st w
        = (Inr (st\<lparr>plan := Some (ai_content ai), cacheHit := (cacheHit st \<or> fc)\<rparr>),
           afterNode ''plan'' c st [(''plan'', JStr (ai_content ai)), (''fromCache'', JBool fc)] ?w3)"
      using call Inr p by (simp add: plan_node_def Let_def)
    ultimately show ?thesis using shape_ok [of c Plan st w ?w3] by simp
  qed
qed

lemma reflect_node_shape: "node_shape c Reflect st w (reflect_node lit env c st w)"
proof -
  let ?w1 = "beforeNode ''reflect'' c st w"
  let ?msgs = "toLCMessages (Some (buildSystemPrompt lit (Some (with_system_prompt c (reflect_lines lit)))))
                  (getHistory ?w1 (runId st)) @ [HumanMessage (join_lines (reflect_ask lit))]"
  obtain r w2 where call: "callModelText env c ?msgs st (Some ''reflect'') ?w1 = (r, w2)"
    by (cases "callModelText env c ?msgs st (Some ''reflect'') ?w1")
  then have e: "extends c ?w1 w2"
    using callModelTextRaw_extends(1) by (simp add: callModelText_def)
  show ?thesis
  proof (cases r)
    case (Inl e')
    then have "reflect_node lit env c st w = (Inl e', w2)"
      using call by (simp add: reflect_node_def Let_def)
    then show ?thesis using shape_fail [of c Reflect st w w2 e'] e by simp
  next
    case (Inr p)
    obtain ai fc where p: "p = (ai, fc)" by (cases p)
    have "reflect_node lit env c st w
        = (Inr (st\<lparr>thoughts := Some (ai_content ai), cacheHit := (cacheHit st \<or> fc)\<rparr>),
           afterNode ''reflect'' c st [(''thoughts'', JStr (ai_content ai))] w2)"
      using call Inr p by (simp add: reflect_node_def Let_def)
    then show ?thesis using shape_ok [of c Reflect st w w2] e by simp
  qed
qed

lemma validate_node_shape: "node_shape c Validate st w (validate_node lit env c st w)"
proof (cases "declared_schema (input st)")
  case None
  have "extends c (beforeNode ''validate'' c st w) (beforeNode ''validate'' c st w)"
    by (rule extends_refl)
  then show ?thesis
    using None shape_ok [of c Validate st w "beforeNode ''validate'' c st w"]
    by (simp add: validate_node_def Let_def)
next
  case (Some schema)
  let ?w1 = "beforeNode ''validate'' c st w"
  let ?msgs = "toLCMessages (Some (buildSystemPrompt lit (Some (with_system_prompt c (validate_lines lit)))))
                 (getHistory ?w1 (runId st)) @ [HumanMessage (validate_ask lit)]"
  obtain r w2 where call: "invokeWithStructuredOutput env ?msgs schema ?w1 = (r, w2)"
    by (cases "invokeWithStructuredOutput env ?msgs schema ?w1")
  then have e: "extends c ?w1 w2"
    using structured_extends [of c ?w1 env ?msgs schema] by simp
  show ?thesis
  proof (cases r)
    case (Inl e')
    then have "validate_node lit env c st w = (Inl e', w2)"
      using call Some by (simp add: validate_node_def Let_def)
    then show ?thesis using shape_fail [of c Validate st w w2 e'] e by simp
  next
    case (Inr obj)
    then have "validate_node lit env c st w
        = (Inr (st\<lparr>isValid := Some True, finalObject := Some obj\<rparr>),
           afterNode ''validate'' c st [(''isValid'', JBool True), (''hasObject'', JBool (truthy obj))] w2)"
      using call Some by (simp add: validate_node_def Let_def)
    then show ?thesis using shape_ok [of c Validate st w w2] e by simp
  qed
qed

lemma converge_node_shape: "node_shape c Converge st w (converge_node lit env c st w)"
  using shape_ok [of c Converge st w "beforeNode ''converge'' c st w"] extends_refl
  by (simp add: converge_node_def Let_def)

lemma act_node_shape: "node_shape c Act st w (act_node lit env c st w)"
proof -
  let ?w1 = "beforeNode ''act'' c st w"
  obtain r w2 where d: "decide lit env c st ?w1 = (r, w2)" by (cases "decide lit env c st ?w1")
  then have e: "extends c ?w1 w2"
    using callModelTextRaw_extends(1) by (simp add: decide_def)
  show ?thesis
  proof (cases r)
    case (Inl e')
    then have "act_node lit env c st w = (Inl e', w2)"
      using d by (simp add: act_node_def Let_def)
    then show ?thesis using shape_fail [of c Act st w w2 e'] e by simp
  next
    case (Inr p)
    obtain ai1 fc1 where p: "p = (ai1, fc1)" by (cases p)
    let ?tm = "executeToolCalls lit ai1 (tools c)"
    let ?w3 = "if ?tm \<noteq> [] then memory_append (runId st) ?tm w2 else w2"
    have e3: "extends c ?w1 ?w3" using e memory_append_extends extends_trans by (auto simp: extends_refl)
    obtain r2 w4 where s: "summarize lit env c st ?w3 = (r2, w4)" by (cases "summarize lit env c st ?w3")
    then have "extends c ?w3 w4"
      using callModelTextRaw_extends(1) by (simp add: summarize_def callModelText_def)
    then have e4: "extends c ?w1 w4" using e3 extends_trans by blast
    show ?thesis
    proof (cases r2)
      case (Inl e')
      then have "act_node lit env c st w = (Inl e', w4)"
        using d Inr p s by (simp add: act_node_def Let_def)
      then show ?thesis using shape_fail [of c Act st w w4 e'] e4 by simp
    next
      case r2: (Inr q)
      obtain ai fc where q: "q = (ai, fc)" by (cases q)
      let ?w5 = "memory_append (runId st) [assistant_message (ai_content ai)] w4"
      have "extends c ?w1 ?w5" using e4 memory_append_extends extends_trans by blast
      moreover have "\<exists>st' extra. act_node lit env c st w = (Inr st', afterNode ''act'' c st extra ?w5)"
        using d Inr p s r2 q by (auto simp: act_node_def Let_def)
      ultimately show ?thesis using shape_ok [of c Act st w ?w5] by auto
    qed
  qed
qed

lemma run_node_shape: "node_shape c n st w (run_node lit env c n st w)"
  by (cases n) (simp_all add: plan_node_shape act_node_shape reflect_node_shape
      validate_node_shape converge_node_shape)

section \<open>The paths of the graph\<close>

lemma run_node_counters:
  assumes "run_node lit env c n state w = (Inr state', w')"
  shows "maxSteps state' = maxSteps state \<and> step state' = (if n = Act then step state + 1 else step state)"
  using assms
  by (cases n)
    (auto simp: plan_node_def act_node_def reflect_node_def validate_node_def converge_node_def
      Let_def split: prod.splits sum.splits option.splits)

lemma run_node_fields:
  assumes "run_node lit env c n state w = (Inr state', w')"
  shows "input state' = input state \<and> runId state' = runId state
     \<and> (n \<noteq> Validate \<longrightarrow> finalObject state' = finalObject state)
     \<and> (n = Validate \<longrightarrow>
           (declared_schema (input state) = None \<longrightarrow> finalObject state' = finalObject state)
           \<and> (declared_schema (input state) \<noteq> None \<longrightarrow> finalObject state' \<noteq> None))
     \<and> (n = Converge \<longrightarrow> endedAt state' \<noteq> None)
     \<and> (n \<noteq> Act \<longrightarrow> candidateAnswer state' = candidateAnswer state \<and> usedTools state' = usedTools state)"
  using assms
  by (cases n)
    (auto simp: plan_node_def act_node_def reflect_node_def validate_node_def converge_node_def
      Let_def split: prod.splits sum.splits option.splits)

lemma follows_next:
  assumes "run_node lit env c n st w = (Inr st1, w1)" and "next_node n st1 = Some n1"
  shows "follows (maxSteps st) (n, step st) (n1, step st1)"
  using run_node_counters [OF assms(1)] assms(2)
  by (cases n) (auto simp: follows_def split: if_splits)

lemma new_events_split:
  assumes "events w1 = events w @ a" and "events w2 = events w1 @ b"
  shows "new_events w w2 = new_events w w1 @ new_events w1 w2"
  using assms by (simp add: new_events_def)

lemma drive_path:
  assumes "drive k lit env c n st w = (r, w')"
  shows "\<exists>path ok. path \<noteq> [] \<and> hd path = (n, step st) \<and> successively (follows (maxSteps st)) path
        \<and> node_trace (new_events w w') = trace_of path ok
        \<and> (\<not> isl r \<longrightarrow> ok)
        \<and> length path \<le> Suc k
        \<and> (\<forall>final. r = Inr final \<longrightarrow> last path = (Converge, step final)
               \<and> maxSteps final = maxSteps st \<and> endedAt final \<noteq> None)
        \<and> (\<exists>evs. events w' = events w @ evs)
        \<and> next_limiter w' = next_limiter w
        \<and> (\<forall>a. a \<noteq> limiter c \<longrightarrow> limiters w' a = limiters w a)
        \<and> clock w \<le> clock w'"
  using assms
proof (induction k arbitrary: n st w r w')
  case 0
  obtain x w1 where node: "run_node lit env c n st w = (x, w1)"
    by (cases "run_node lit env c n st w")
  have shape: "node_trace (new_events w w1)
       = entered n (step st) # (case x of Inl _ \<Rightarrow> [] | Inr _ \<Rightarrow> [exited n (step st)])"
      "\<exists>evs. events w1 = events w @ evs" "next_limiter w1 = next_limiter w"
      "\<forall>a. a \<noteq> limiter c \<longrightarrow> limiters w1 a = limiters w a" "clock w \<le> clock w1"
    using run_node_shape [of c n st w lit env] node by (simp_all add: node_shape_def)
  have r: "isl r" "w' = w1" using 0 node by (auto simp: drive.simps split: sum.splits)
  have "trace_of [(n, step st)] (\<not> isl x)
      = entered n (step st) # (case x of Inl _ \<Rightarrow> [] | Inr _ \<Rightarrow> [exited n (step st)])"
    by (cases x) simp_all
  then show ?case
    using shape r by (intro exI [of _ "[(n, step st)]"] exI [of _ "\<not> isl x"]) auto
next
  case (Suc k)
  obtain x w1 where node: "run_node lit env c n st w = (x, w1)"
    by (cases "run_node lit env c n st w")
  have shape: "node_trace (new_events w w1)
       = entered n (step st) # (case x of Inl _ \<Rightarrow> [] | Inr _ \<Rightarrow> [exited n (step st)])"
      "\<exists>evs. events w1 = events w @ evs" "next_limiter w1 = next_limiter w"
      "\<forall>a. a \<noteq> limiter c \<longrightarrow> limiters w1 a = limiters w a" "clock w \<le> clock w1"
    using run_node_shape [of c n st w lit env] node by (simp_all add: node_shape_def)
  show ?case
  proof (cases x)
    case (Inl e)
    then have r: "r = Inl e" "w' = w1" using Suc.prems node by (simp_all add: drive.simps)
    have "trace_of [(n, step st)] False = [entered n (step st)]" by simp
    then show ?thesis
      using shape Inl r by (intro exI [of _ "[(n, step st)]"] exI [of _ False]) simp
  next
    case (Inr st1)
    note counters = run_node_counters [OF node [unfolded Inr]]
    note fields = run_node_fields [OF node [unfolded Inr]]
    show ?thesis
    proof (cases "next_node n st1")
      case None
      then have n: "n = Converge" by (cases n) simp_all
      have r: "r = Inr st1" "w' = w1" using Suc.prems node Inr None by (simp_all add: drive.simps)
      have "trace_of [(n, step st)] True = [entered n (step st), exited n (step st)]"
        by simp
      then show ?thesis
        using shape Inr r n counters fields
        by (intro exI [of _ "[(n, step st)]"] exI [of _ True]) simp
    next
      case (Some n1)
      have rec: "drive k lit env c n1 st1 w1 = (r, w')"
        using Suc.prems node Inr Some by (simp add: drive.simps)
      obtain path ok where p: "path \<noteq> []" "hd path = (n1, step st1)"
          "successively (follows (maxSteps st1)) path"
          "node_trace (new_events w1 w') = trace_of path ok"
          "\<not> isl r \<longrightarrow> ok" "length path \<le> Suc k"
          "\<forall>final. r = Inr final \<longrightarrow> last path = (Converge, step final)
               \<and> maxSteps final = maxSteps st1 \<and> endedAt final \<noteq> None"
          "\<exists>evs. events w' = events w1 @ evs" "next_limiter w' = next_limiter w1"
          "\<forall>a. a \<noteq> limiter c \<longrightarrow> limiters w' a = limiters w1 a" "clock w1 \<le> clock w'"
        using Suc.IH [OF rec] by blast
      obtain q qs where path: "path = q # qs" using p(1) by (cases path) auto
      have q: "q = (n1, step st1)" using p(2) path by simp
      let ?path = "(n, step st) # path"
      have "successively (follows (maxSteps st)) ?path"
        using p(3) follows_next [OF node [unfolded Inr] Some] counters path q by simp
      moreover have "node_trace (new_events w w') = trace_of ?path ok"
      proof -
        obtain a b where "events w1 = events w @ a" "events w' = events w1 @ b"
          using shape(2) p(8) by blast
        then have "new_events w w' = new_events w w1 @ new_events w1 w'"
          by (rule new_events_split)
        then show ?thesis
          using shape(1) p(4) Inr path by (simp add: node_trace_append)
      qed
      moreover have "\<exists>evs. events w' = events w @ evs" using shape(2) p(8) by auto
      moreover have "\<forall>final. r = Inr final \<longrightarrow> last ?path = (Converge, step final)
               \<and> maxSteps final = maxSteps st \<and> endedAt final \<noteq> None"
        using p(7) p(1) counters by simp
      ultimately show ?thesis
        using shape p(5,6,9,10,11) by (intro exI [of _ ?path] exI [of _ ok]) simp
    qed
  qed
qed

lemma node_name_act: "node_name n = ''act'' \<longleftrightarrow> n = Act"
  by (cases n) simp_all

lemma act_entries_trace:
  "act_entries (trace_of path ok) = map (\<lambda>p. entered Act (snd p)) (filter (\<lambda>p. fst p = Act) path)"
  by (induction path ok rule: trace_of.induct)
    (auto simp: act_entries_def entered_def exited_def node_name_act)

lemma trace_of_append_ok: "trace_of (xs @ ys) True = trace_of xs True @ trace_of ys True"
proof (induction xs True rule: trace_of.induct)
  case (2 p)
  then show ?case by (cases ys) simp_all
qed simp_all

lemma follows_below: "follows N p q \<Longrightarrow> (fst p = Plan \<Longrightarrow> below N p) \<Longrightarrow> below N q"
  by (cases "fst p") (auto simp: follows_def below_def split: if_splits)

lemma path_below:
  "successively (follows N) (p # ps) \<Longrightarrow> below N p \<Longrightarrow> \<forall>q\<in>set (p # ps). below N q"
proof (induction ps arbitrary: p)
  case Nil
  then show ?case by simp
next
  case (Cons q qs)
  then have "follows N p q" "successively (follows N) (q # qs)" by simp_all
  moreover from this Cons.prems(2) have "below N q" by (auto intro: follows_below)
  ultimately show ?case using Cons.IH [of q] Cons.prems(2) by simp
qed

lemma path_acts:
  "successively (follows N) (p # ps) \<Longrightarrow> below N p \<Longrightarrow>
     int (length (filter (\<lambda>x. fst x = Act) (p # ps))) \<le> max 0 (N - snd p)"
proof (induction ps arbitrary: p)
  case Nil
  then show ?case by (auto simp: below_def)
next
  case (Cons q qs)
  then have f: "follows N p q" and s: "successively (follows N) (q # qs)" by simp_all
  have bq: "below N q" using f Cons.prems(2) by (auto intro: follows_below)
  have ih: "int (length (filter (\<lambda>x. fst x = Act) (q # qs))) \<le> max 0 (N - snd q)"
    using Cons.IH [OF s bq] .
  show ?case
  proof (cases "fst p = Act")
    case True
    then have "snd q = snd p + 1" "snd p < N" using f Cons.prems(2) by (auto simp: follows_def below_def)
    then show ?thesis using ih True by simp
  next
    case False
    then have "snd q = snd p" using f by (cases "fst p") (auto simp: follows_def)
    then show ?thesis using ih False by simp
  qed
qed

lemma path_steps:
  "successively (follows N) (p # ps) \<Longrightarrow>
     snd (last (p # ps)) = snd p + int (length (filter (\<lambda>x. fst x = Act) (butlast (p # ps))))"
proof (induction ps arbitrary: p)
  case Nil
  then show ?case by simp
next
  case (Cons q qs)
  then have f: "follows N p q" and s: "successively (follows N) (q # qs)" by simp_all
  have "snd q = (if fst p = Act then snd p + 1 else snd p)"
    using f by (cases "fst p") (auto simp: follows_def)
  then show ?case using Cons.IH [OF s] by simp
qed

lemma path_end:
  assumes "successively (follows N) path" and "last path = (Converge, s)" and "hd path = (Plan, s0)"
    and "path \<noteq> []"
  shows "\<exists>pre. path = pre @ [(Validate, s), (Converge, s)]"
proof -
  obtain ps where ps: "path = ps @ [(Converge, s)]"
    using assms(2,4) by (metis append_butlast_last_id)
  have "ps \<noteq> []" using assms(3) ps by (cases ps) auto
  then obtain pre p where pre: "ps = pre @ [p]" by (metis append_butlast_last_id)
  have "successively (follows N) ([p] @ [(Converge, s)])"
    using assms(1) ps pre by (simp add: successively_append_iff)
  then have "follows N p (Converge, s)" by simp
  then have "p = (Validate, s)"
    by (cases p, cases "fst p") (auto simp: follows_def split: if_splits)
  then show ?thesis using ps pre by simp
qed

lemma call_succeeds:
  assumes "reliable env c"
  shows "\<exists>ai fc w'. callModelTextRaw env c bound msgs state tag w = (Inr (ai, fc), w')"
  using assms callModelTextRaw_succeeds [of env c bound msgs state tag w]
  by (simp add: reliable_def)

lemma run_node_succeeds:
  assumes "reliable env c"
  shows "\<exists>st' w'. run_node lit env c n st w = (Inr st', w')"
proof (cases n)
  case Plan
  let ?w1 = "beforeNode ''plan'' c st w"
  let ?msgs = "toLCMessages (Some (buildSystemPrompt lit (systemPrompt (params c)))) (getHistory ?w1 (runId st))
                     @ [HumanMessage (join_lines (plan_lines lit @ [task_prefix lit @ normalizeTask (input st)]))]"
  obtain ai fc w2 where "callModelText env c ?msgs st (Some ''plan'') ?w1 = (Inr (ai, fc), w2)"
    using call_succeeds [OF assms] unfolding callModelText_def by blast
  then show ?thesis using Plan by (simp add: plan_node_def Let_def)
next
  case Act
  let ?w1 = "beforeNode ''act'' c st w"
  obtain ai1 fc1 w2 where d: "decide lit env c st ?w1 = (Inr (ai1, fc1), w2)"
    using call_succeeds [OF assms] unfolding decide_def by blast
  let ?tm = "executeToolCalls lit ai1 (tools c)"
  let ?w3 = "if ?tm \<noteq> [] then memory_append (runId st) ?tm w2 else w2"
  obtain ai fc w4 where s: "summarize lit env c st ?w3 = (Inr (ai, fc), w4)"
    using call_succeeds [OF assms] unfolding summarize_def callModelText_def by blast
  show ?thesis using Act d s by (auto simp: act_node_def Let_def)
next
  case Reflect
  let ?w1 = "beforeNode ''reflect'' c st w"
  let ?msgs = "toLCMessages (Some (buildSystemPrompt lit (Some (with_system_prompt c (reflect_lines lit)))))
                  (getHistory ?w1 (runId st)) @ [HumanMessage (join_lines (reflect_ask lit))]"
  obtain ai fc w2 where "callModelText env c ?msgs st (Some ''reflect'') ?w1 = (Inr (ai, fc), w2)"
    using call_succeeds [OF assms] unfolding callModelText_def by blast
  then show ?thesis using Reflect by (simp add: reflect_node_def Let_def)
next
  case Validate
  have "\<And>n. \<exists>v. snd (structured_reply env n) = Inr v" using assms by (simp add: reliable_def)
  then have "\<exists>v. fst (invokeWithStructuredOutput env ms schema u) = Inr v" for ms schema u
    by (simp add: invokeWithStructuredOutput_def Let_def)
  then show ?thesis using Validate
    by (auto simp: validate_node_def Let_def split: option.splits prod.splits sum.splits)
      (metis fst_conv sum.distinct(1))
next
  case Converge
  then show ?thesis by (simp add: converge_node_def Let_def)
qed

text \<open>
  C1. The nodes and edges of the graph, run from \<open>plan\<close> with the step counter at 0
  and a ceiling \<open>maxSteps = N > 0\<close>, for as many nodes as the library lets run: \<open>act\<close> is
  entered at most N times, each time with the counter below N; and a run that ends
  without an error has counted one step for each entry into \<open>act\<close> (at least one, at
  most N) and has ended with \<open>validate\<close> and then \<open>converge\<close>. Each entry into \<open>act\<close> adds
  exactly one to the counter, and the edges are: \<open>plan\<close> to \<open>act\<close>; \<open>act\<close> to \<open>reflect\<close>
  if the counter is below N, else to \<open>validate\<close>; \<open>reflect\<close> to \<open>act\<close> if it is below
  N - 1, else to \<open>validate\<close>; \<open>validate\<close> to \<open>act\<close> if the validity flag is not true and
  the counter is below N, else to \<open>converge\<close>.
\<close>

theorem act_bound:
  assumes "0 < maxSteps st" and "step st = 0"
  shows "int (length (act_entries (node_trace (new_events w (snd (drive k lit env c Plan st w)))))) \<le> maxSteps st
    \<and> (\<forall>x\<in>set (act_entries (node_trace (new_events w (snd (drive k lit env c Plan st w))))).
          \<exists>s. snd (snd x) = Some (JNum s) \<and> s < maxSteps st)
    \<and> (\<forall>final. fst (drive k lit env c Plan st w) = Inr final \<longrightarrow>
          step final = int (length (act_entries (node_trace (new_events w (snd (drive k lit env c Plan st w))))))
          \<and> 1 \<le> step final \<and> step final \<le> maxSteps st
          \<and> (\<exists>pre. node_trace (new_events w (snd (drive k lit env c Plan st w)))
                = pre @ [entered Validate (step final), exited Validate (step final),
                         entered Converge (step final), exited Converge (step final)]))
    \<and> (\<forall>s u s' u'. run_node lit env c Act s u = (Inr s', u') \<longrightarrow> step s' = step s + 1)
    \<and> (\<forall>s. next_node Plan s = Some Act
          \<and> next_node Act s = Some (if step s < maxSteps s then Reflect else Validate)
          \<and> next_node Reflect s = Some (if step s < maxSteps s - 1 then Act else Validate)
          \<and> next_node Validate s
              = Some (if isValid s \<noteq> Some True \<and> step s < maxSteps s then Act else Converge))"
proof -
  let ?N = "maxSteps st"
  obtain r w' where d: "drive k lit env c Plan st w = (r, w')" by (cases "drive k lit env c Plan st w")
  obtain path ok where p: "path \<noteq> []" "hd path = (Plan, step st)" "successively (follows ?N) path"
      "node_trace (new_events w w') = trace_of path ok" "\<not> isl r \<longrightarrow> ok"
      "\<forall>final. r = Inr final \<longrightarrow> last path = (Converge, step final)
               \<and> maxSteps final = maxSteps st \<and> endedAt final \<noteq> None"
    using drive_path [OF d] by blast
  obtain ps where path: "path = (Plan, 0) # ps" using p(1,2) assms(2) by (cases path) auto
  have b0: "below ?N (Plan, 0)" using assms(1) by (simp add: below_def)
  let ?acts = "filter (\<lambda>x. fst x = Act) path"
  have entries: "act_entries (node_trace (new_events w w')) = map (\<lambda>p. entered Act (snd p)) ?acts"
    using p(4) by (simp add: act_entries_trace)
  have bound: "int (length ?acts) \<le> ?N"
    using path_acts [of ?N "(Plan, 0)" ps] p(3) b0 path assms(1) by simp
  have all_below: "\<forall>q\<in>set path. below ?N q"
    using path_below [of ?N "(Plan, 0)" ps] p(3) b0 path by simp
  have c1: "int (length (act_entries (node_trace (new_events w w')))) \<le> ?N"
    using bound entries by simp
  have c2: "\<forall>x\<in>set (act_entries (node_trace (new_events w w'))). \<exists>s. snd (snd x) = Some (JNum s) \<and> s < ?N"
    using all_below entries by (auto simp: entered_def below_def)
  have c3: "step final = int (length (act_entries (node_trace (new_events w w'))))
          \<and> 1 \<le> step final \<and> step final \<le> ?N
          \<and> (\<exists>pre. node_trace (new_events w w')
                = pre @ [entered Validate (step final), exited Validate (step final),
                         entered Converge (step final), exited Converge (step final)])"
    if r: "r = Inr final" for final
  proof -
    have ok: ok using p(5) r by simp
    have l: "last path = (Converge, step final)" using p(6) r by simp
    obtain pre where pre: "path = pre @ [(Validate, step final), (Converge, step final)]"
      using path_end [OF p(3) l _ p(1)] path by auto
    have "snd (last path) = 0 + int (length (filter (\<lambda>x. fst x = Act) (butlast path)))"
      using path_steps [of ?N "(Plan, 0)" ps] p(3) path by simp
    moreover have "filter (\<lambda>x. fst x = Act) (butlast path) = ?acts"
      using pre by (simp add: butlast_append)
    ultimately have s: "step final = int (length ?acts)" using l by simp
    have "pre \<noteq> []" using pre path by (cases pre) auto
    have "ps \<noteq> []" using pre path by (cases pre) auto
    then obtain q qs where ps: "ps = q # qs" by (cases ps) auto
    have "follows ?N (Plan, 0) q" using p(3) path ps by simp
    then have "fst q = Act" by (auto simp: follows_def)
    then have "1 \<le> length ?acts" using path ps by simp
    moreover have "trace_of path True
        = trace_of pre True @ [entered Validate (step final), exited Validate (step final),
                         entered Converge (step final), exited Converge (step final)]"
      unfolding pre by (simp add: trace_of_append_ok)
    ultimately show ?thesis using s entries bound p(4) ok by auto
  qed
  have c5: "\<forall>s u s' u'. run_node lit env c Act s u = (Inr s', u') \<longrightarrow> step s' = step s + 1"
    using run_node_counters by fastforce
  have c6: "\<forall>s. next_node Plan s = Some Act
          \<and> next_node Act s = Some (if step s < maxSteps s then Reflect else Validate)
          \<and> next_node Reflect s = Some (if step s < maxSteps s - 1 then Act else Validate)
          \<and> next_node Validate s
              = Some (if isValid s \<noteq> Some True \<and> step s < maxSteps s then Act else Converge)"
    by auto
  show ?thesis using c1 c2 c3 c5 c6 unfolding d fst_conv snd_conv by blast
qed

theorem act_bound_witness:
  "int (length (act_entries (node_trace
      (new_events world0 (snd (drive 24 lit0 steady ctx0 Plan state0 world0)))))) \<le> 2"
proof -
  have h: "0 < maxSteps state0" "step state0 = 0" "maxSteps state0 = 2"
    by (simp_all add: state0_def)
  show ?thesis
    using act_bound [OF h(1,2), of world0 24 lit0 steady ctx0] h(3) by simp
qed

section \<open>The validate phase at concrete inputs, and the tools\<close>

lemma trim_blank: "trim ''  '' = []"
  by code_simp

theorem validate_flag_witness:
  "fst (validate_node lit0 steady ctx0 state_schema world0)
     = Inr (state_schema\<lparr>isValid := Some True, finalObject := Some (JObj [(''ok'', JBool True)])\<rparr>)
   \<and> fst (validate_node lit0 steady ctx0 state_blank world0) = Inr (state_blank\<lparr>isValid := Some False\<rparr>)
   \<and> new_requests world0 (snd (validate_node lit0 steady ctx0 state_blank world0)) = []"
proof -
  have a: "declared_schema (input state_schema) = Some (JObj [(''type'', JStr ''object'')])"
    and b: "declared_schema (input state_blank) = None"
    and c: "snd (structured_reply steady (length (requests world0))) = Inr (JObj [(''ok'', JBool True)])"
    and d: "candidateAnswer state_blank = Some ''  ''"
    by (simp_all add: state_schema_def state_blank_def state0_def declared_schema_def steady_def)
  show ?thesis
    using validate_flag [of state_schema world0 lit0 steady ctx0]
      validate_flag [of state_blank world0 lit0 steady ctx0] a b c
    by (simp add: d trim_blank)
qed

lemma toolMap_None: "toolMap ts n = None \<longleftrightarrow> \<not> (\<exists>t\<in>set ts. usable t \<and> tool_name t = n)"
  by (induction ts) (auto split: option.splits)

lemma slice_last_twice: "slice_last n (if length xs > n then slice_last n xs else xs) = slice_last n xs"
  by (simp add: slice_last_def)

lemma getHistory_append:
  "getHistory (memory_append rid ms w) rid
     = slice_last maxKeep ((case store w rid of None \<Rightarrow> [] | Some a \<Rightarrow> a) @ map (stamp (nowMs w)) ms)"
  by (simp add: getHistory_def memory_append_def Let_def slice_last_def)

text \<open>
  C8. \<open>executeToolCalls\<close> never throws and returns one tool message for each call of
  the batch, in order. For a call whose name no enabled, visible tool of the registry
  bears, the message has the role \<open>tool\<close>, the name called, and the JSON text
  \<open>{"error": ...}\<close> naming it. For a call to a registered tool, whatever the other
  calls of the batch, the arguments are those of the call, or the empty object when
  the call has none or \<open>null\<close>; the message carries the JSON text of the result when
  the arguments parse and the execution returns, and \<open>{"error": ...}\<close> with the
  message of the error otherwise. In \<open>act\<close>, once the decision has come back, the tool
  messages (if any) are appended to the history and the candidate answer is asked
  for; \<open>act\<close> fails only if that request fails, and otherwise returns the candidate,
  the names of the tools called and one more step.
\<close>

theorem unregistered_tool:
  "length (executeToolCalls lit ai ts) = length (tool_calls ai)
   \<and> (\<forall>i < length (tool_calls ai).
         \<not> (\<exists>t\<in>set ts. usable t \<and> tool_name t = toolName_of (tool_calls ai ! i)) \<longrightarrow>
           executeToolCalls lit ai ts ! i
             = \<lparr>role = Tool,
                content = stringify (JObj [(''error'',
                            JStr (unregistered lit @ toolName_of (tool_calls ai ! i)))]),
                name = Some (toolName_of (tool_calls ai ! i)), createdAt = None\<rparr>)
   \<and> (\<forall>i < length (tool_calls ai). \<forall>d.
         toolMap ts (toolName_of (tool_calls ai ! i)) = Some d \<longrightarrow>
           executeToolCalls lit ai ts ! i
             = \<lparr>role = Tool,
                content =
                  (case ensureZod (tool_schema d)
                          (case call_args (tool_calls ai ! i) of
                             None \<Rightarrow> JObj []
                           | Some a \<Rightarrow> if a = JNull then JObj [] else a) of
                     Inl e \<Rightarrow> stringify (JObj [(''error'', JStr (message e))])
                   | Inr parsed \<Rightarrow>
                       (case execute d parsed of
                          Inl e \<Rightarrow> stringify (JObj [(''error'', JStr (message e))])
                        | Inr result \<Rightarrow> stringify result)),
                name = Some (toolName_of (tool_calls ai ! i)), createdAt = None\<rparr>)
   \<and> (\<forall>ai1 fc w2. decide lit env c state (beforeNode ''act'' c state w) = (Inr (ai1, fc), w2) \<longrightarrow>
         (executeToolCalls lit ai1 (tools c) \<noteq> [] \<longrightarrow>
            getHistory (memory_append (runId state) (executeToolCalls lit ai1 (tools c)) w2) (runId state)
              = slice_last maxKeep
                  ((case store w2 (runId state) of None \<Rightarrow> [] | Some a \<Rightarrow> a)
                   @ map (stamp (nowMs w2)) (executeToolCalls lit ai1 (tools c))))
         \<and> (case summarize lit env c state
                   (if executeToolCalls lit ai1 (tools c) \<noteq> []
                    then memory_append (runId state) (executeToolCalls lit ai1 (tools c)) w2 else w2) of
               (Inl e, w4) \<Rightarrow> act_node lit env c state w = (Inl e, w4)
             | (Inr (ai2, fc2), w4) \<Rightarrow>
                 fst (act_node lit env c state w)
                   = Inr (state\<lparr>candidateAnswer := Some (ai_content ai2),
                                usedTools := usedTools state
                                  @ (if executeToolCalls lit ai1 (tools c) \<noteq> []
                                     then names_of (executeToolCalls lit ai1 (tools c)) else []),
                                step := step state + 1,
                                cacheHit := (cacheHit state \<or> fc2)\<rparr>)))"
proof (intro conjI allI impI)
  show "length (executeToolCalls lit ai ts) = length (tool_calls ai)"
    by (simp add: executeToolCalls_def)
next
  fix i assume "i < length (tool_calls ai)"
    and "\<not> (\<exists>t\<in>set ts. usable t \<and> tool_name t = toolName_of (tool_calls ai ! i))"
  then show "executeToolCalls lit ai ts ! i
             = \<lparr>role = Tool,
                content = stringify (JObj [(''error'',
                            JStr (unregistered lit @ toolName_of (tool_calls ai ! i)))]),
                name = Some (toolName_of (tool_calls ai ! i)), createdAt = None\<rparr>"
    using toolMap_None [of ts "toolName_of (tool_calls ai ! i)"]
    by (simp add: executeToolCalls_def execute_call_def Let_def tool_message_def error_payload_def)
next
  fix i d
  assume "i < length (tool_calls ai)"
    and "toolMap ts (toolName_of (tool_calls ai ! i)) = Some d"
  then show "executeToolCalls lit ai ts ! i
             = \<lparr>role = Tool,
                content =
                  (case ensureZod (tool_schema d)
                          (case call_args (tool_calls ai ! i) of
                             None \<Rightarrow> JObj []
                           | Some a \<Rightarrow> if a = JNull then JObj [] else a) of
                     Inl e \<Rightarrow> stringify (JObj [(''error'', JStr (message e))])
                   | Inr parsed \<Rightarrow>
                       (case execute d parsed of
                          Inl e \<Rightarrow> stringify (JObj [(''error'', JStr (message e))])
                        | Inr result \<Rightarrow> stringify result)),
                name = Some (toolName_of (tool_calls ai ! i)), createdAt = None\<rparr>"
    by (simp add: executeToolCalls_def execute_call_def Let_def tool_message_def error_payload_def
        args_of_def split: sum.splits)
next
  fix ai1 fc w2
  assume "decide lit env c state (beforeNode ''act'' c state w) = (Inr (ai1, fc), w2)"
    and "executeToolCalls lit ai1 (tools c) \<noteq> []"
  show "getHistory (memory_append (runId state) (executeToolCalls lit ai1 (tools c)) w2) (runId state)
              = slice_last maxKeep
                  ((case store w2 (runId state) of None \<Rightarrow> [] | Some a \<Rightarrow> a)
                   @ map (stamp (nowMs w2)) (executeToolCalls lit ai1 (tools c)))"
    by (rule getHistory_append)
next
  fix ai1 fc w2
  assume "decide lit env c state (beforeNode ''act'' c state w) = (Inr (ai1, fc), w2)"
  then show "case summarize lit env c state
                   (if executeToolCalls lit ai1 (tools c) \<noteq> []
                    then memory_append (runId state) (executeToolCalls lit ai1 (tools c)) w2 else w2) of
               (Inl e, w4) \<Rightarrow> act_node lit env c state w = (Inl e, w4)
             | (Inr (ai2, fc2), w4) \<Rightarrow>
                 fst (act_node lit env c state w)
                   = Inr (state\<lparr>candidateAnswer := Some (ai_content ai2),
                                usedTools := usedTools state
                                  @ (if executeToolCalls lit ai1 (tools c) \<noteq> []
                                     then names_of (executeToolCalls lit ai1 (tools c)) else []),
                                step := step state + 1,
                                cacheHit := (cacheHit state \<or> fc2)\<rparr>)"
    by (auto simp: act_node_def Let_def split: prod.splits sum.splits)
qed

section \<open>A batch with an unregistered tool, and the text stream\<close>

lemma batch_maps:
  "toolMap [echo, secret, strict] ''echo'' = Some echo"
  "toolMap [echo, secret, strict] ''strict'' = Some strict"
  "toolMap [echo, secret, strict] ''nope'' = None"
  "toolMap [echo, secret, strict] ''secret'' = None"
  by (simp_all add: echo_def secret_def strict_def usable_def)

lemma batch_messages:
  "executeToolCalls lit0 call_batch [echo, secret, strict]
     = [\<lparr>role = Tool, content = ''{\"error\":\"unregistered tool: nope\"}'', name = Some ''nope'', createdAt = None\<rparr>,
        \<lparr>role = Tool, content = ''{\"echo\":{}}'', name = Some ''echo'', createdAt = None\<rparr>,
        \<lparr>role = Tool, content = ''{\"error\":\"unregistered tool: secret\"}'', name = Some ''secret'', createdAt = None\<rparr>,
        \<lparr>role = Tool, content = ''{\"echo\":{\"q\":\"x\"}}'', name = Some ''echo'', createdAt = None\<rparr>,
        \<lparr>role = Tool, content = ''{\"error\":\"Required\"}'', name = Some ''strict'', createdAt = None\<rparr>]"
  by code_simp

theorem unregistered_tool_witness:
  "length (executeToolCalls lit0 call_batch [echo, secret, strict]) = 5
   \<and> executeToolCalls lit0 call_batch [echo, secret, strict] ! 0
       = \<lparr>role = Tool, content = ''{\"error\":\"unregistered tool: nope\"}'', name = Some ''nope'', createdAt = None\<rparr>
   \<and> executeToolCalls lit0 call_batch [echo, secret, strict] ! 1
       = \<lparr>role = Tool, content = ''{\"echo\":{}}'', name = Some ''echo'', createdAt = None\<rparr>
   \<and> executeToolCalls lit0 call_batch [echo, secret, strict] ! 2
       = \<lparr>role = Tool, content = ''{\"error\":\"unregistered tool: secret\"}'', name = Some ''secret'', createdAt = None\<rparr>
   \<and> executeToolCalls lit0 call_batch [echo, secret, strict] ! 3
       = \<lparr>role = Tool, content = ''{\"echo\":{\"q\":\"x\"}}'', name = Some ''echo'', createdAt = None\<rparr>
   \<and> executeToolCalls lit0 call_batch [echo, secret, strict] ! 4
       = \<lparr>role = Tool, content = ''{\"error\":\"Required\"}'', name = Some ''strict'', createdAt = None\<rparr>
   \<and> (\<exists>st'. fst (act_node lit0 batchy ctx_tools state0 world0) = Inr st'
         \<and> usedTools st' = [''nope'', ''echo'', ''secret'', ''echo'', ''strict''] \<and> step st' = 1)"
proof -
  have r: "reliable batchy ctx_tools"
    by (simp add: reliable_def batchy_def ctx_tools_def ctx0_def params0_def perStep_def)
  obtain ai1 fc w2 where d: "decide lit0 batchy ctx_tools state0 (beforeNode ''act'' ctx_tools state0 world0) = (Inr (ai1, fc), w2)"
    using call_succeeds [OF r] unfolding decide_def by blast
  have "cached_all (\<lambda>ai. ai = call_batch) (beforeNode ''act'' ctx_tools state0 world0)"
    by (simp add: cached_all_def beforeNode_def emit_def world0_def)
  then have ai1: "ai1 = call_batch"
    using callModelTextRaw_extends(2) [OF d [unfolded decide_def], of "\<lambda>ai. ai = call_batch"]
    by (simp add: batchy_def)
  have t: "tools ctx_tools = [echo, secret, strict]"
    by (simp add: ctx_tools_def)
  let ?tm = "executeToolCalls lit0 call_batch [echo, secret, strict]"
  have tm: "?tm \<noteq> []" "names_of ?tm = [''nope'', ''echo'', ''secret'', ''echo'', ''strict'']"
    by (simp_all add: batch_messages names_of_def)
  obtain ai2 fc2 w4 where s: "summarize lit0 batchy ctx_tools state0 (memory_append (runId state0) ?tm w2) = (Inr (ai2, fc2), w4)"
    using call_succeeds [OF r] unfolding summarize_def callModelText_def by blast
  note u = unregistered_tool [of lit0 call_batch "[echo, secret, strict]" batchy ctx_tools state0 world0]
  have calls: "length (tool_calls call_batch) = 5"
      "toolName_of (tool_calls call_batch ! 0) = ''nope''"
      "toolName_of (tool_calls call_batch ! 1) = ''echo''"
      "toolName_of (tool_calls call_batch ! 2) = ''secret''"
      "toolName_of (tool_calls call_batch ! 3) = ''echo''"
      "toolName_of (tool_calls call_batch ! 4) = ''strict''"
      "call_args (tool_calls call_batch ! 1) = Some JNull"
      "call_args (tool_calls call_batch ! 3) = Some (JObj [(''q'', JStr ''x'')])"
      "call_args (tool_calls call_batch ! 4) = None"
    by (simp_all add: call_batch_def toolName_of_def)
  have a: "length ?tm = 5"
    using u calls(1) by simp
  have un: "\<not> (\<exists>t\<in>set [echo, secret, strict]. usable t \<and> tool_name t = ''nope'')"
      "\<not> (\<exists>t\<in>set [echo, secret, strict]. usable t \<and> tool_name t = ''secret'')"
    by (simp_all add: echo_def secret_def strict_def usable_def)
  have b0: "?tm ! 0 = \<lparr>role = Tool, content = stringify (JObj [(''error'', JStr ''unregistered tool: nope'')]),
      name = Some ''nope'', createdAt = None\<rparr>"
    using u [THEN conjunct2, THEN conjunct1, THEN spec, of 0] un(1) calls
    by (simp add: lit0_def)
  have b2: "?tm ! 2 = \<lparr>role = Tool, content = stringify (JObj [(''error'', JStr ''unregistered tool: secret'')]),
      name = Some ''secret'', createdAt = None\<rparr>"
    using u [THEN conjunct2, THEN conjunct1, THEN spec, of 2] un(2) calls
    by (simp add: lit0_def)
  have b1: "?tm ! 1 = \<lparr>role = Tool, content = stringify (JObj [(''echo'', JObj [])]),
      name = Some ''echo'', createdAt = None\<rparr>"
    using u [THEN conjunct2, THEN conjunct2, THEN conjunct1, THEN spec, of 1, THEN mp, THEN spec, of echo]
      calls batch_maps(1)
    by (simp add: echo_def)
  have b3: "?tm ! 3 = \<lparr>role = Tool, content = stringify (JObj [(''echo'', JObj [(''q'', JStr ''x'')])]),
      name = Some ''echo'', createdAt = None\<rparr>"
    using u [THEN conjunct2, THEN conjunct2, THEN conjunct1, THEN spec, of 3, THEN mp, THEN spec, of echo]
      calls batch_maps(1)
    by (simp add: echo_def)
  have b4: "?tm ! 4 = \<lparr>role = Tool, content = stringify (JObj [(''error'', JStr ''Required'')]),
      name = Some ''strict'', createdAt = None\<rparr>"
    using u [THEN conjunct2, THEN conjunct2, THEN conjunct1, THEN spec, of 4, THEN mp, THEN spec, of strict]
      calls batch_maps(2)
    by (simp add: strict_def)
  have texts: "stringify (JObj [(''error'', JStr ''unregistered tool: nope'')]) = ''{\"error\":\"unregistered tool: nope\"}''"
      "stringify (JObj [(''error'', JStr ''unregistered tool: secret'')]) = ''{\"error\":\"unregistered tool: secret\"}''"
      "stringify (JObj [(''echo'', JObj [])]) = ''{\"echo\":{}}''"
      "stringify (JObj [(''echo'', JObj [(''q'', JStr ''x'')])]) = ''{\"echo\":{\"q\":\"x\"}}''"
      "stringify (JObj [(''error'', JStr ''Required'')]) = ''{\"error\":\"Required\"}''"
    by code_simp+
  have "fst (act_node lit0 batchy ctx_tools state0 world0)
      = Inr (state0\<lparr>candidateAnswer := Some (ai_content ai2),
                    usedTools := usedTools state0 @ [''nope'', ''echo'', ''secret'', ''echo'', ''strict''],
                    step := step state0 + 1, cacheHit := (cacheHit state0 \<or> fc2)\<rparr>)"
    using u [THEN conjunct2, THEN conjunct2, THEN conjunct2] d s tm by (simp add: ai1 t)
  then have "\<exists>st'. fst (act_node lit0 batchy ctx_tools state0 world0) = Inr st'
         \<and> usedTools st' = [''nope'', ''echo'', ''secret'', ''echo'', ''strict''] \<and> step st' = 1"
    by (simp add: state0_def)
  then show ?thesis using a b0 b1 b2 b3 b4 by (simp only: texts)
qed

lemma consume_spec:
  "fst (consume sig t chunks)
     = map snd (takeWhile (\<lambda>x. \<not> aborted sig (fst x)) (filter (\<lambda>x. snd x \<noteq> []) (arrivals t chunks)))"
  by (induction sig t chunks rule: consume.induct) (auto split: prod.splits)

lemma stream_text_spec:
  assumes "stream_text lit env rid sig w = ((ds, None), w')"
  shows "ds = map snd (takeWhile (\<lambda>x. \<not> aborted sig (fst x))
                 (filter (\<lambda>x. snd x \<noteq> []) (arrivals (clock w) (fst (stream_reply env (length (requests w)))))))
     \<and> (\<exists>pre msg. store w' rid = Some (pre @ [msg]) \<and> role msg = Assistant \<and> content msg = concat ds)
     \<and> events w' = events w"
proof -
  let ?reply = "stream_reply env (length (requests w))"
  let ?loop = "consume sig (clock w) (fst ?reply)"
  let ?w2 = "w\<lparr>requests := requests w @ [StreamRequest (toLCMessages (Some (join_lines (summarize_lines lit))) (getHistory w rid))],
               clock := fst (snd ?loop)\<rparr>"
  have ds: "ds = fst ?loop" and w': "w' = memory_append rid [assistant_message (concat ds)] ?w2"
    using assms by (auto simp: stream_text_def Let_def split: if_splits)
  let ?arr = "(case store ?w2 rid of None \<Rightarrow> [] | Some a \<Rightarrow> a) @ [stamp (nowMs ?w2) (assistant_message (concat ds))]"
  have st: "store w' rid = Some (if length ?arr > maxKeep then slice_last maxKeep ?arr else ?arr)"
    by (simp add: w' memory_append_def Let_def)
  have "\<exists>pre. slice_last maxKeep ?arr = pre @ [stamp (nowMs ?w2) (assistant_message (concat ds))]"
    by (simp add: slice_last_def maxKeep_def)
  then have "\<exists>pre. (if length ?arr > maxKeep then slice_last maxKeep ?arr else ?arr)
      = pre @ [stamp (nowMs ?w2) (assistant_message (concat ds))]"
    by auto
  then obtain pre where "store w' rid = Some (pre @ [stamp (nowMs ?w2) (assistant_message (concat ds))])"
    using st by auto
  moreover have "role (stamp (nowMs ?w2) (assistant_message (concat ds))) = Assistant"
      "content (stamp (nowMs ?w2) (assistant_message (concat ds))) = concat ds"
    by (simp_all add: stamp_def assistant_message_def)
  moreover have "events w' = events w" by (simp add: w' memory_append_def Let_def)
  ultimately show ?thesis using ds consume_spec [of sig "clock w" "fst ?reply"] by blast
qed

section \<open>stream(): the chunks yielded\<close>

lemma finish_stream_shape:
  assumes "finish_stream rid ce sub m (map delta_chunk ds) w = ((chunks, r), w')"
  shows "\<exists>m'. chunks = map delta_chunk ds @ [end_chunk m'] \<and> store w' = store w
           \<and> steps m' = steps m \<and> meta_model m' = meta_model m
           \<and> meta_usedTools m' = meta_usedTools m \<and> durationMs m' = durationMs m"
  using assms by (auto simp: finish_stream_def Let_def emit_def)

lemma end_filter:
  "filter (\<lambda>c. event_tag c \<noteq> None) (map delta_chunk ds @ [end_chunk m]) = [end_chunk m]"
  by (induction ds) (simp_all add: delta_chunk_def end_chunk_def)

lemma plan_step:
  "(case invokeText env bound msgs w of (p, w') \<Rightarrow> await p w')
     = (snd (invoke_reply env (length (requests w))),
        w\<lparr>requests := requests w @ [TextRequest bound msgs],
          clock := clock w + int (fst (invoke_reply env (length (requests w))))\<rparr>)"
  by (simp add: invokeText_def await_def)

lemma start_frame:
  "requests (emit e w) = requests w" "clock (emit e w) = clock w"
  "requests (snd (new_ctx lib ps opts w)) = requests w" "clock (snd (new_ctx lib ps opts w)) = clock w"
  by (simp_all add: new_ctx_def emit_def)

lemma memory_append_frame:
  "clock (memory_append rid ms w) = clock w" "requests (memory_append rid ms w) = requests w"
  "events (memory_append rid ms w) = events w"
  by (simp_all add: memory_append_def Let_def)

text \<open>
  C10. When \<open>stream()\<close> completes without throwing, what it has yielded is a list of
  delta chunks followed by one end chunk, the only chunk with an event field, which
  carries the metadata of the run. With a schema declared there is no delta chunk.
  With none, the deltas are the non-empty texts of the model's stream that arrived
  before the first one at whose arrival the signal was aborted: from the abort on no
  delta is yielded, the end chunk still comes last, and the last message of the
  history of the run is the assistant's, with the text accumulated so far.
\<close>

theorem stream_ends:
  assumes "stream lit env lib rid collectEvents inp opts w = ((chunks, None), w')"
  shows "\<exists>ds m. chunks = map delta_chunk ds @ [end_chunk m]
     \<and> filter (\<lambda>c. event_tag c \<noteq> None) chunks = [end_chunk m]
     \<and> meta_model m = model (mergeParams (baseParams lib) (opt_overrides opts))
     \<and> (declared_schema inp \<noteq> None \<longrightarrow> ds = [])
     \<and> (declared_schema inp = None \<longrightarrow>
          ds = map snd (takeWhile (\<lambda>x. \<not> aborted (opt_signal opts) (fst x))
                 (filter (\<lambda>x. snd x \<noteq> [])
                    (arrivals (clock w + int (fst (invoke_reply env (length (requests w))))
                                 + int (fst (invoke_reply env (length (requests w) + 1))))
                       (fst (stream_reply env (length (requests w) + 2))))))
          \<and> (\<exists>pre msg. store w' rid = Some (pre @ [msg])
                \<and> role msg = Assistant \<and> content msg = concat ds))"
proof -
  let ?ps = "mergeParams (baseParams lib) (opt_overrides opts)"
  let ?ms = "case opt_maxSteps opts of None \<Rightarrow> defaultMaxSteps lib | Some n \<Rightarrow> n"
  let ?made = "new_ctx lib ?ps opts w"
  let ?w1 = "emit (run_start_event rid ?ps ?ms (snd ?made)) (snd ?made)"
  let ?task = "normalizeTask inp"
  let ?planMsgs = "toLCMessages (Some (join_lines (system_lines lit))) (getHistory ?w1 rid)
                     @ [HumanMessage (join_lines (stream_plan_lines lit @ [task_prefix lit @ ?task]))]"
  let ?n = "length (requests w)"
  have w1: "requests ?w1 = requests w" "clock ?w1 = clock w"
    by (simp_all add: new_ctx_def emit_def)
  let ?w2 = "?w1\<lparr>requests := requests ?w1 @ [TextRequest [] ?planMsgs],
          clock := clock ?w1 + int (fst (invoke_reply env (length (requests ?w1))))\<rparr>"
  obtain planAI where p: "snd (invoke_reply env (length (requests ?w1))) = Inr planAI"
    using assms unfolding stream_def Let_def plan_step
    by (cases "snd (invoke_reply env (length (requests ?w1)))") auto
  let ?w3 = "memory_append rid [user_message ?task, assistant_message (ai_content planAI)] ?w2"
  let ?actMsgs = "toLCMessages (Some (join_lines (act_lines lit))) (getHistory ?w3 rid)"
  let ?w4 = "?w3\<lparr>requests := requests ?w3 @ [TextRequest (buildLCTools (lib_tools lib)) ?actMsgs],
          clock := clock ?w3 + int (fst (invoke_reply env (length (requests ?w3))))\<rparr>"
  have w3: "requests ?w3 = requests w @ [TextRequest [] ?planMsgs]"
      "clock ?w3 = clock w + int (fst (invoke_reply env ?n))"
    by (simp_all add: memory_append_frame start_frame)
  obtain aiDecide where a: "snd (invoke_reply env (length (requests ?w3))) = Inr aiDecide"
    using assms p unfolding stream_def Let_def plan_step
    by (cases "snd (invoke_reply env (length (requests ?w3)))") auto
  let ?tm = "executeToolCalls lit aiDecide (lib_tools lib)"
  define w5 where "w5 = (if ?tm \<noteq> [] then memory_append rid ?tm ?w4 else ?w4)"
  have w5: "length (requests w5) = ?n + 2"
      "clock w5 = clock w + int (fst (invoke_reply env ?n)) + int (fst (invoke_reply env (?n + 1)))"
    by (simp_all add: w5_def memory_append_frame start_frame)
  have run: "stream lit env lib rid collectEvents inp opts w =
     (case declared_schema inp of
        Some schema \<Rightarrow>
          (case invokeWithStructuredOutput env
                  (toLCMessages (Some (join_lines (validate_lines lit))) (getHistory w5 rid)
                     @ [HumanMessage (validate_ask lit)]) schema w5 of
             (Inl e, w6) \<Rightarrow> (([], Some e), w6)
           | (Inr obj, w6) \<Rightarrow>
               finish_stream rid collectEvents (length (events w))
                 (stream_meta (min ?ms 3) (nowMs w6 - nowMs w) ?ps ?tm None) [] w6)
      | None \<Rightarrow>
          (case stream_text lit env rid (opt_signal opts) w5 of
             ((ds, Some e), w6) \<Rightarrow> ((map delta_chunk ds, Some e), w6)
           | ((ds, None), w6) \<Rightarrow>
               finish_stream rid collectEvents (length (events w))
                 (stream_meta (min ?ms 4) (nowMs w6 - nowMs w) ?ps ?tm None)
                 (map delta_chunk ds) w6))"
    unfolding stream_def Let_def plan_step w5_def using p a by simp
  show ?thesis
  proof (cases "declared_schema inp")
    case (Some schema)
    let ?vm = "toLCMessages (Some (join_lines (validate_lines lit))) (getHistory w5 rid)
                 @ [HumanMessage (validate_ask lit)]"
    obtain r w6 where v: "invokeWithStructuredOutput env ?vm schema w5 = (r, w6)"
      by (cases "invokeWithStructuredOutput env ?vm schema w5")
    then obtain obj where r: "r = Inr obj"
      using assms Some unfolding run by (cases r) auto
    have "finish_stream rid collectEvents (length (events w))
            (stream_meta (min ?ms 3) (nowMs w6 - nowMs w) ?ps ?tm None) (map delta_chunk []) w6
          = ((chunks, None), w')"
      using assms Some v r unfolding run by simp
    from finish_stream_shape [OF this] obtain m
      where "chunks = map delta_chunk [] @ [end_chunk m]"
        "meta_model m = model ?ps"
      by (auto simp: stream_meta_def)
    then have "chunks = map delta_chunk [] @ [end_chunk m]"
        "filter (\<lambda>c. event_tag c \<noteq> None) chunks = [end_chunk m]"
        "meta_model m = model ?ps"
      using end_filter [of "[]" m] by simp_all
    then show ?thesis
      by (intro exI [of _ "[]"] exI [of _ m]) (use Some in simp)
  next
    case None
    obtain ds e w6 where t: "stream_text lit env rid (opt_signal opts) w5 = ((ds, e), w6)"
      by (metis prod.collapse)
    have e: "e = None"
      using assms None t unfolding run by (cases e) auto
    have "finish_stream rid collectEvents (length (events w))
            (stream_meta (min ?ms 4) (nowMs w6 - nowMs w) ?ps ?tm None) (map delta_chunk ds) w6
          = ((chunks, None), w')"
      using assms None t e unfolding run by simp
    from finish_stream_shape [OF this] obtain m
      where m: "chunks = map delta_chunk ds @ [end_chunk m]"
        "meta_model m = model ?ps" "store w' = store w6"
      by (auto simp: stream_meta_def)
    note s = stream_text_spec [OF t [unfolded e]]
    have c1: "ds = map snd (takeWhile (\<lambda>x. \<not> aborted (opt_signal opts) (fst x))
                 (filter (\<lambda>x. snd x \<noteq> [])
                    (arrivals (clock w + int (fst (invoke_reply env ?n)) + int (fst (invoke_reply env (?n + 1))))
                       (fst (stream_reply env (?n + 2))))))"
      using s unfolding w5 by blast
    have c2: "\<exists>pre msg. store w' rid = Some (pre @ [msg])
                \<and> role msg = Assistant \<and> content msg = concat ds"
      using s m(3) by metis
    have f: "filter (\<lambda>c. event_tag c \<noteq> None) chunks = [end_chunk m]"
      by (simp only: m(1) end_filter)
    show ?thesis
      by (rule exI [of _ ds], rule exI [of _ m]) (use None m(1,2) f c1 c2 in blast)
  qed
qed

lemma stream_completes:
  assumes "snd (invoke_reply env (length (requests w))) = Inr a"
    and "snd (invoke_reply env (length (requests w) + 1)) = Inr b"
    and "declared_schema inp = None"
    and "snd (stream_reply env (length (requests w) + 2)) = None"
  shows "snd (fst (stream lit env lib rid collectEvents inp opts w)) = None"
proof -
  let ?ps = "mergeParams (baseParams lib) (opt_overrides opts)"
  let ?ms = "case opt_maxSteps opts of None \<Rightarrow> defaultMaxSteps lib | Some n \<Rightarrow> n"
  let ?made = "new_ctx lib ?ps opts w"
  let ?w1 = "emit (run_start_event rid ?ps ?ms (snd ?made)) (snd ?made)"
  have w1: "requests ?w1 = requests w" "clock ?w1 = clock w"
    by (simp_all add: new_ctx_def emit_def)
  have t: "snd (fst (stream_text lit env rid sig u)) = None"
    if "length (requests u) = length (requests w) + 2" for sig u
    using that assms(4) by (simp add: stream_text_def Let_def)
  show ?thesis
    unfolding stream_def Let_def plan_step
    using assms(1-3)
    apply (simp add: start_frame memory_append_frame split: prod.splits option.splits)
    apply (intro conjI impI allI)
     apply (auto simp: finish_stream_def Let_def memory_append_frame start_frame dest!: arg_cong [where f = "\<lambda>x. snd (fst x)"] simp: t)
    done
qed

theorem stream_ends_witness:
  "\<exists>m. fst (fst (stream lit0 chatty lib0 ''run_1'' False (TaskText ''hi'') opts_abort world0))
        = [delta_chunk ''a'', end_chunk m]"
proof -
  obtain chunks e w' where s: "stream lit0 chatty lib0 ''run_1'' False (TaskText ''hi'') opts_abort world0 = ((chunks, e), w')"
    by (metis prod.collapse)
  have d: "declared_schema (TaskText ''hi'') = None"
    by (simp add: declared_schema_def)
  have "e = None"
    using stream_completes [of chatty world0 ok_message ok_message "TaskText ''hi''" lit0 lib0 "''run_1''" False opts_abort] d s
    by (simp add: chatty_def)
  then show ?thesis
    using stream_ends [of lit0 chatty lib0 "''run_1''" False "TaskText ''hi''" opts_abort world0 chunks w'] s d
    by (auto simp: chatty_def world0_def opts_abort_def)
qed

section \<open>The events of the phases\<close>

text \<open>
  C9 (amended). A phase emits \<open>node:enter\<close> first; the events that follow are those of
  its model calls; \<open>node:exit\<close> comes last and only when the work succeeded: no
  \<open>try\<close>/\<open>finally\<close> surrounds the work, so a phase whose model call throws emits
  no \<open>node:exit\<close>. A phase only adds to the events emitted before it, so that a
  phase that runs after another emits its events after the other's.
\<close>

theorem phase_events:
  "(\<exists>inner closing.
       new_events w (snd (run_node lit env c n st w))
         = node_event NodeEnter (node_name n) st [] w # inner @ closing
       \<and> (\<forall>e\<in>set inner. kind e \<in> policy_kinds)
       \<and> (case fst (run_node lit env c n st w) of
             Inl _ \<Rightarrow> closing = []
           | Inr _ \<Rightarrow> \<exists>extra wk. closing = [node_event NodeExit (node_name n) st extra wk]))
   \<and> node_trace (new_events w (snd (run_node lit env c n st w)))
       = entered n (step st)
         # (case fst (run_node lit env c n st w) of Inl _ \<Rightarrow> [] | Inr _ \<Rightarrow> [exited n (step st)])
   \<and> events (snd (run_node lit env c n st w))
       = events w @ new_events w (snd (run_node lit env c n st w))
   \<and> (\<forall>st1 w1. run_node lit env c n st w = (Inr st1, w1) \<longrightarrow>
         new_events w (snd (run_node lit env c n1 st1 w1))
           = new_events w w1 @ new_events w1 (snd (run_node lit env c n1 st1 w1)))"
proof -
  note s = run_node_shape [of c n st w lit env, unfolded node_shape_def]
  have a: "events (snd (run_node lit env c n st w))
       = events w @ new_events w (snd (run_node lit env c n st w))"
    using s by (auto simp: new_events_def)
  have b: "new_events w (snd (run_node lit env c n1 st1 w1))
           = new_events w w1 @ new_events w1 (snd (run_node lit env c n1 st1 w1))"
    if rn: "run_node lit env c n st w = (Inr st1, w1)" for st1 w1
  proof -
    obtain x where "events w1 = events w @ x" using s rn by auto
    moreover obtain y where "events (snd (run_node lit env c n1 st1 w1)) = events w1 @ y"
      using run_node_shape [of c n1 st1 w1 lit env] by (auto simp: node_shape_def)
    ultimately show ?thesis by (rule new_events_split)
  qed
  show ?thesis using s a b by blast
qed

theorem phase_events_witness:
  "node_trace (new_events world0 (snd (run_node lit0 steady ctx0 Plan state0 world0)))
     = [entered Plan 0, exited Plan 0]"
proof -
  have r: "reliable steady ctx0"
    by (simp add: reliable_def steady_def ctx0_def params0_def perStep_def)
  obtain st1 w1 where "run_node lit0 steady ctx0 Plan state0 world0 = (Inr st1, w1)"
    using run_node_succeeds [OF r] by blast
  then show ?thesis
    using phase_events [of world0 lit0 steady ctx0 Plan state0 Act]
    by (simp add: state0_def)
qed

text \<open>
  With a client that fails every request, the plan phase fails after its retries, and
  the only node event of the phase is its \<open>node:enter\<close>.
\<close>

theorem failed_plan_has_no_exit:
  "fst (run_node lit0 down ctx0 Plan state0 world0) = Inl (Failure ''503'')
   \<and> node_trace (new_events world0 (snd (run_node lit0 down ctx0 Plan state0 world0)))
       = [entered Plan 0]"
proof -
  let ?w1 = "beforeNode ''plan'' ctx0 state0 world0"
  let ?msgs = "toLCMessages (Some (buildSystemPrompt lit0 (systemPrompt (params ctx0)))) (getHistory ?w1 (runId state0))
                     @ [HumanMessage (join_lines (plan_lines lit0 @ [task_prefix lit0 @ normalizeTask (input state0)]))]"
  have miss: "fst (cache_get (responseCache ?w1) (nowMs ?w1) (request_key ctx0 (Some ''plan'') ?msgs)) = None"
    by (simp add: beforeNode_def emit_def world0_def cache_get_def)
  have mx: "1 \<le> retries_max ctx0" by (simp add: retries_max_def ctx0_def params0_def)
  have "fst (callModelTextRaw down ctx0 [] ?msgs state0 (Some ''plan'') ?w1) = Inl (Failure ''503'')"
    using callModelTextRaw_all_fail [OF miss mx, of down "Failure ''503''" "[]" state0]
    by (simp add: down_def withTimeout_def ctx0_def params0_def perStep_def)
  then obtain w2 where "callModelTextRaw down ctx0 [] ?msgs state0 (Some ''plan'') ?w1
      = (Inl (Failure ''503''), w2)"
    by (metis prod.collapse)
  then have f: "fst (run_node lit0 down ctx0 Plan state0 world0) = Inl (Failure ''503'')"
    by (simp add: plan_node_def callModelText_def Let_def)
  show ?thesis
    using run_node_shape [of ctx0 Plan state0 world0 lit0 down] f
    by (simp add: node_shape_def state0_def)
qed

section \<open>run(): the graph is not built\<close>

lemma unique_from_props:
  "distinct (unique_from seen xs) \<and> set (unique_from seen xs) = set xs - set seen"
  by (induction seen xs rule: unique_from.induct) auto

lemma buildReasoningGraph_fails: "buildReasoningGraph = Inl (NodeNameClash ''plan'')"
  by (simp add: buildReasoningGraph_def addNode_def channels_def)

text \<open>
  C6. \<open>run()\<close> returns no result: for every input, \<open>buildReasoningGraph\<close> throws when it
  adds the node \<open>plan\<close>, whose name is that of a state channel; \<open>run()\<close> rejects with
  that error once \<open>run:start\<close> is emitted, before any phase runs and before any request
  is made of the model. The result it would build from a final state (the object
  validation stored; the text left out when that object is truthy; the names of the
  tools once each) is never built.
\<close>

theorem run_rejects:
  "fst (run lit env lib rid collectEvents inp opts w) = Inl (NodeNameClash ''plan'')
   \<and> map kind (new_events w (snd (run lit env lib rid collectEvents inp opts w))) = [RunStart]
   \<and> new_requests w (snd (run lit env lib rid collectEvents inp opts w)) = []
   \<and> res_text (build_result final m)
       = (if truthy_object (finalObject final) then None
          else Some (case candidateAnswer final of None \<Rightarrow> [] | Some s \<Rightarrow> s))
   \<and> res_object (build_result final m) = finalObject final
   \<and> distinct (meta_usedTools (build_meta final ps d evs))
   \<and> set (meta_usedTools (build_meta final ps d evs)) = set (usedTools final)"
  using unique_from_props [of "[]" "usedTools final"]
  by (simp add: run_def Let_def buildReasoningGraph_fails new_events_def new_requests_def emit_def
      new_ctx_def run_start_event_def build_result_def build_meta_def unique_def)

theorem run_rejects_witness:
  "fst (run lit0 steady lib0 ''run_1'' False task_trip opts0 world0) = Inl (NodeNameClash ''plan'')
   \<and> map kind (new_events world0 (snd (run lit0 steady lib0 ''run_1'' False task_trip opts0 world0)))
       = [RunStart]"
  using run_rejects [of lit0 steady lib0 "''run_1''" False task_trip opts0 world0]
  by simp

section \<open>The rate limiter of a run\<close>

lemma ensureRateLimit_cache_frame:
  "limiters (ensureRateLimit c st (w\<lparr>responseCache := x\<rparr>)) = limiters (ensureRateLimit c st w)"
  "requests (ensureRateLimit c st (w\<lparr>responseCache := x\<rparr>)) = requests w"
  "clock (ensureRateLimit c st (w\<lparr>responseCache := x\<rparr>)) = clock (ensureRateLimit c st w)"
  "events (ensureRateLimit c st (w\<lparr>responseCache := x\<rparr>)) = events (ensureRateLimit c st w)"
  "sleeps (ensureRateLimit c st (w\<lparr>responseCache := x\<rparr>)) = sleeps (ensureRateLimit c st w)"
  "responseCache (ensureRateLimit c st (w\<lparr>responseCache := x\<rparr>)) = x"
  by (auto simp: ensureRateLimit_def Let_def sleep_def emit_def nowMs_def delay_event_def
      split: option.splits)

lemma ensureRateLimit_spec:
  assumes "rateLimit (params c) = Some rl" "enabled rl = Some True" "rpm rl = Some r" "0 < r"
  shows "limiters (ensureRateLimit c st w) (limiter c) = Some (clock (ensureRateLimit c st w))"
    and "clock (ensureRateLimit c st w)
           = max (clock w) ((case limiters w (limiter c) of None \<Rightarrow> 0 | Some t \<Rightarrow> t) + ceil_div 60000 r)"
    and "new_events w (ensureRateLimit c st w)
           = (let wait = ceil_div 60000 r
                         - (clock w - (case limiters w (limiter c) of None \<Rightarrow> 0 | Some t \<Rightarrow> t))
              in if 0 < wait then [delay_event st wait w] else [])"
    and "new_sleeps w (ensureRateLimit c st w)
           = (let wait = ceil_div 60000 r
                         - (clock w - (case limiters w (limiter c) of None \<Rightarrow> 0 | Some t \<Rightarrow> t))
              in if 0 < wait then [wait] else [])"
  using assms
  by (auto simp: ensureRateLimit_def Let_def sleep_def emit_def nowMs_def new_events_def
      new_sleeps_def)

lemma call_limiters:
  "limiters (snd (callModelTextRaw env c bound msgs st tag w))
     = (if fst (cache_get (responseCache w) (nowMs w) (request_key c tag msgs)) = None
        then limiters (ensureRateLimit c st w) else limiters w)"
proof -
  let ?looked = "cache_get (responseCache w) (nowMs w) (request_key c tag msgs)"
  let ?w0 = "w\<lparr>responseCache := snd ?looked\<rparr>"
  obtain r w2 where l: "retry_loop c st (timedInvoke env c bound msgs) 0 (retries_initial c)
                          (ensureRateLimit c st ?w0) = (r, w2)"
    by (metis prod.collapse)
  have "limiters w2 = limiters (ensureRateLimit c st w)"
    using retry_loop_extends [OF l] ensureRateLimit_cache_frame(1) by simp
  then show ?thesis
    using l
    by (auto simp: callModelTextRaw_def retryAsync_def Let_def emit_def split: option.splits sum.splits)
qed

lemma call_first_try:
  assumes miss: "fst (cache_get (responseCache w) (nowMs w) (request_key c tag msgs)) = None"
    and reply: "invoke_reply env (length (requests w)) = (d, Inr v)"
    and plain: "perStep c = None" "signal c = None"
  shows "fst (callModelTextRaw env c bound msgs st tag w) = Inr (v, False)"
    and "clock (snd (callModelTextRaw env c bound msgs st tag w))
           = clock (ensureRateLimit c st w) + int d"
    and "new_events (ensureRateLimit c st w) (snd (callModelTextRaw env c bound msgs st tag w))
           = [call_end_event st ((ensureRateLimit c st w)\<lparr>clock := clock (ensureRateLimit c st w) + int d\<rparr>)]"
    and "sleeps (snd (callModelTextRaw env c bound msgs st tag w)) = sleeps (ensureRateLimit c st w)"
    and "requests (snd (callModelTextRaw env c bound msgs st tag w)) = requests w @ [TextRequest bound msgs]"
    and "responseCache (snd (callModelTextRaw env c bound msgs st tag w))
           = cache_set (snd (cache_get (responseCache w) (nowMs w) (request_key c tag msgs)))
               (clock (ensureRateLimit c st w) + int d) (request_key c tag msgs) v"
proof -
  let ?looked = "cache_get (responseCache w) (nowMs w) (request_key c tag msgs)"
  let ?w0 = "w\<lparr>responseCache := snd ?looked\<rparr>"
  let ?w1 = "ensureRateLimit c st ?w0"
  note w1 = ensureRateLimit_cache_frame
  have t: "timedInvoke env c bound msgs ?w1
      = (Inr v, ?w1\<lparr>requests := requests w @ [TextRequest bound msgs],
                     clock := clock (ensureRateLimit c st w) + int d\<rparr>)"
    using reply plain by (simp add: timedInvoke_def invokeText_def withTimeout_def w1)
  have l: "retry_loop c st (timedInvoke env c bound msgs) 0 (retries_initial c) ?w1
      = (Inr v, ?w1\<lparr>requests := requests w @ [TextRequest bound msgs],
                     clock := clock (ensureRateLimit c st w) + int d\<rparr>)"
    by (subst retry_loop.simps) (simp add: t)
  note run = callModelTextRaw_def retryAsync_def Let_def
  show "fst (callModelTextRaw env c bound msgs st tag w) = Inr (v, False)"
    using miss l by (simp add: run)
  show "clock (snd (callModelTextRaw env c bound msgs st tag w))
           = clock (ensureRateLimit c st w) + int d"
    using miss l by (simp add: run emit_def)
  show "new_events (ensureRateLimit c st w) (snd (callModelTextRaw env c bound msgs st tag w))
           = [call_end_event st ((ensureRateLimit c st w)\<lparr>clock := clock (ensureRateLimit c st w) + int d\<rparr>)]"
    using miss l by (simp add: run emit_def new_events_def w1 call_end_event_def nowMs_def)
  show "sleeps (snd (callModelTextRaw env c bound msgs st tag w)) = sleeps (ensureRateLimit c st w)"
    using miss l by (simp add: run emit_def w1)
  show "requests (snd (callModelTextRaw env c bound msgs st tag w)) = requests w @ [TextRequest bound msgs]"
    using miss l by (simp add: run emit_def w1)
  show "responseCache (snd (callModelTextRaw env c bound msgs st tag w))
           = cache_set (snd (cache_get (responseCache w) (nowMs w) (request_key c tag msgs)))
               (clock (ensureRateLimit c st w) + int d) (request_key c tag msgs) v"
    using miss l by (simp add: run emit_def w1 nowMs_def)
qed

lemma ensureRateLimit_limiters:
  assumes "rateLimit (params c) = Some rl" "enabled rl = Some True" "rpm rl = Some r" "0 < r"
  shows "limiters (ensureRateLimit c st w)
           = (limiters w)(limiter c := Some (clock (ensureRateLimit c st w)))"
  using assms
  by (auto simp: ensureRateLimit_def Let_def sleep_def emit_def nowMs_def)

text \<open>
  C7 (amended). The last-call time of the rate limiter belongs to a run: \<open>run()\<close> and
  \<open>stream()\<close> build the context of each run with a limiter object of its own, whose
  last-call time is undefined. With the rate limit enabled at \<open>r\<close> requests a minute, a
  model call of the run that misses the cache passes the limiter: it sleeps until the
  interval \<open>ceil(60000 / r)\<close> has elapsed since the last-call time of the run,
  emitting one \<open>ratelimit:delay\<close> with the wait when it sleeps, and records the time;
  a cache hit leaves the limiter alone. Neither a call nor the whole graph of a run
  touches the limiter of another run.
\<close>

theorem limiter_per_run:
  assumes "rateLimit (params c) = Some rl" "enabled rl = Some True" "rpm rl = Some r" "0 < r"
  shows "limiter (fst (new_ctx lib ps opts w)) = next_limiter w
     \<and> limiters (snd (new_ctx lib ps opts w)) = (limiters w)(next_limiter w := None)
     \<and> next_limiter (snd (new_ctx lib ps opts w)) = Suc (next_limiter w)
     \<and> limiters (snd (callModelTextRaw env c bound msgs st tag w))
         = (if fst (cache_get (responseCache w) (nowMs w) (request_key c tag msgs)) = None
            then limiters (ensureRateLimit c st w) else limiters w)
     \<and> limiters (ensureRateLimit c st w)
         = (limiters w)(limiter c := Some (clock (ensureRateLimit c st w)))
     \<and> clock (ensureRateLimit c st w)
         = max (clock w) ((case limiters w (limiter c) of None \<Rightarrow> 0 | Some t \<Rightarrow> t) + ceil_div 60000 r)
     \<and> new_events w (ensureRateLimit c st w)
         = (let wait = ceil_div 60000 r
                       - (clock w - (case limiters w (limiter c) of None \<Rightarrow> 0 | Some t \<Rightarrow> t))
            in if 0 < wait then [delay_event st wait w] else [])
     \<and> new_sleeps w (ensureRateLimit c st w)
         = (let wait = ceil_div 60000 r
                       - (clock w - (case limiters w (limiter c) of None \<Rightarrow> 0 | Some t \<Rightarrow> t))
            in if 0 < wait then [wait] else [])
     \<and> (\<forall>a. a \<noteq> limiter c \<longrightarrow> limiters (snd (drive k lit env c n st w)) a = limiters w a)
     \<and> next_limiter (snd (drive k lit env c n st w)) = next_limiter w"
proof -
  obtain r' w' where d: "drive k lit env c n st w = (r', w')" by (metis prod.collapse)
  have frame: "(\<forall>a. a \<noteq> limiter c \<longrightarrow> limiters (snd (drive k lit env c n st w)) a = limiters w a)
     \<and> next_limiter (snd (drive k lit env c n st w)) = next_limiter w"
    using drive_path [OF d] d by auto
  have made: "limiter (fst (new_ctx lib ps opts w)) = next_limiter w
     \<and> limiters (snd (new_ctx lib ps opts w)) = (limiters w)(next_limiter w := None)
     \<and> next_limiter (snd (new_ctx lib ps opts w)) = Suc (next_limiter w)"
    by (simp add: new_ctx_def)
  show ?thesis
    using made frame call_limiters [of env c bound msgs st tag w]
      ensureRateLimit_limiters [OF assms, where st = st and w = w]
      ensureRateLimit_spec(2-4) [OF assms, where st = st and w = w]
    by simp
qed

lemma first_run_facts:
  "fst first_run = \<lparr>params = params_limited, tools = [], limiter = 0, signal = None\<rparr>"
  "clock (snd first_run) = 1000" "requests (snd first_run) = []" "events (snd first_run) = []"
  "sleeps (snd first_run) = []" "limiters (snd first_run) 0 = None"
  "responseCache (snd first_run) = \<lparr>entries = [], cache_max = 500, cache_ttl = 60000\<rparr>"
  by (simp_all add: first_run_def new_ctx_def lib_limited_def mergeParams_def opts0_def world0_def)

lemma limited:
  "rateLimit (params (fst first_run)) = Some \<lparr>rpm = Some 60, enabled = Some True\<rparr>"
  "perStep (fst first_run) = None" "signal (fst first_run) = None" "limiter (fst first_run) = 0"
  "rateLimit (params (fst second_run)) = Some \<lparr>rpm = Some 60, enabled = Some True\<rparr>"
  "perStep (fst second_run) = None" "signal (fst second_run) = None"
  "limiter (fst second_run) = next_limiter after_call"
  by (simp_all add: first_run_facts second_run_def new_ctx_def params_limited_def perStep_def
      params0_def lib_limited_def mergeParams_def opts0_def)

lemma interval_60: "ceil_div 60000 60 = 1000"
  by (simp add: ceil_div_def)

lemma first_pass:
  "clock (ensureRateLimit (fst first_run) state0 (snd first_run)) = 1000"
  "limiters (ensureRateLimit (fst first_run) state0 (snd first_run)) 0 = Some 1000"
  "events (ensureRateLimit (fst first_run) state0 (snd first_run)) = []"
  "sleeps (ensureRateLimit (fst first_run) state0 (snd first_run)) = []"
proof -
  note s = ensureRateLimit_spec [OF limited(1), where r = 60 and st = state0 and w = "snd first_run", simplified]
  show a: "clock (ensureRateLimit (fst first_run) state0 (snd first_run)) = 1000"
    using s(2) by (simp add: limited first_run_facts interval_60)
  show "limiters (ensureRateLimit (fst first_run) state0 (snd first_run)) 0 = Some 1000"
    using s(1) a by (simp add: limited)
  show "events (ensureRateLimit (fst first_run) state0 (snd first_run)) = []"
    using s(3) by (simp add: limited first_run_facts interval_60 new_events_def)
  show "sleeps (ensureRateLimit (fst first_run) state0 (snd first_run)) = []"
    using s(4) by (simp add: limited first_run_facts interval_60 new_sleeps_def)
qed

lemma after_call_facts:
  "clock after_call = 1005" "limiters after_call 0 = Some 1000"
  "requests after_call = [TextRequest [] [HumanMessage ''hi'']]"
  "sleeps after_call = []"
  "responseCache after_call
     = \<lparr>entries = [(request_key (fst first_run) (Some ''plan'') [HumanMessage ''hi''], ok_message, 1005)],
        cache_max = 500, cache_ttl = 60000\<rparr>"
proof -
  have miss: "fst (cache_get (responseCache (snd first_run)) (nowMs (snd first_run))
                 (request_key (fst first_run) (Some ''plan'') [HumanMessage ''hi''])) = None"
    by (simp add: first_run_facts cache_get_def)
  have reply: "invoke_reply steady (length (requests (snd first_run))) = (5, Inr ok_message)"
    by (simp add: steady_def)
  note f = call_first_try [OF miss reply limited(2,3), where bound = "[]" and st = state0]
  show "clock after_call = 1005" using f(2) by (simp add: after_call_def first_pass)
  show "limiters after_call 0 = Some 1000"
    using call_limiters [of steady "fst first_run" "[]" "[HumanMessage ''hi'']" state0 "Some ''plan''" "snd first_run"] miss
    by (simp add: after_call_def first_pass)
  show "requests after_call = [TextRequest [] [HumanMessage ''hi'']]"
    using f(5) by (simp add: after_call_def first_run_facts(2-7))
  show "sleeps after_call = []" using f(4) by (simp add: after_call_def first_pass)
  show "responseCache after_call
     = \<lparr>entries = [(request_key (fst first_run) (Some ''plan'') [HumanMessage ''hi''], ok_message, 1005)],
        cache_max = 500, cache_ttl = 60000\<rparr>"
    using f(6) by (simp add: after_call_def first_pass first_run_facts(2-7) cache_get_def cache_set_def)
qed

theorem limiter_per_run_witness:
  "new_events after_call (ensureRateLimit (fst first_run) state0 after_call)
     = [delay_event state0 995 after_call]
   \<and> new_sleeps after_call (ensureRateLimit (fst first_run) state0 after_call) = [995]
   \<and> clock (ensureRateLimit (fst first_run) state0 after_call) = 2000
   \<and> limiters (ensureRateLimit (fst first_run) state0 after_call) 0 = Some 2000"
  using limiter_per_run [OF limited(1), where r = 60 and st = state0 and w = after_call
      and lib = lib_limited and ps = params_limited and opts = opts0 and env = steady
      and bound = "[]" and msgs = "[]" and tag = None and lit = lit0 and n = Plan]
  by (simp add: limited after_call_facts interval_60 Let_def)

lemma keys_differ:
  "request_key \<lparr>params = params_limited, tools = [], limiter = 0, signal = None\<rparr>
      (Some ''plan'') [HumanMessage ''hi'']
     \<noteq> request_key \<lparr>params = params_limited, tools = [], limiter = 0, signal = None\<rparr>
          (Some ''plan'') [HumanMessage ''hi again'']"
  by code_simp

lemma request_key_params: "params c = params c' \<Longrightarrow> request_key c tag msgs = request_key c' tag msgs"
  by (simp add: request_key_def)

text \<open>
  The first run's call passes its limiter at 1000 and ends at 1005. The second run, made
  from the same library at that time, has a limiter of its own: its first call makes its
  request at once, with no \<open>ratelimit:delay\<close> and no sleep, though the interval of
  1000 ms has not elapsed.
\<close>

theorem second_run_does_not_wait:
  "limiters (snd second_run) (limiter (fst first_run)) = Some 1000
   \<and> limiters (snd second_run) (limiter (fst second_run)) = None
   \<and> clock (snd second_run) = 1005
   \<and> fst (callModelTextRaw steady (fst second_run) [] [HumanMessage ''hi again'']
            state0 (Some ''plan'') (snd second_run)) = Inr (ok_message, False)
   \<and> new_sleeps (snd second_run)
        (snd (callModelTextRaw steady (fst second_run) [] [HumanMessage ''hi again'']
                state0 (Some ''plan'') (snd second_run))) = []
   \<and> of_kind RateLimitDelay (new_events (snd second_run)
        (snd (callModelTextRaw steady (fst second_run) [] [HumanMessage ''hi again'']
                state0 (Some ''plan'') (snd second_run)))) = []
   \<and> clock (snd (callModelTextRaw steady (fst second_run) [] [HumanMessage ''hi again'']
                state0 (Some ''plan'') (snd second_run))) = 1010"
proof -
  let ?c = "fst second_run" and ?w = "snd second_run"
  have w: "clock ?w = 1005" "requests ?w = requests after_call" "sleeps ?w = []"
      "responseCache ?w = responseCache after_call" "events ?w = events after_call"
      "limiters ?w = (limiters after_call)(next_limiter after_call := None)"
    by (simp_all add: second_run_def new_ctx_def after_call_facts)
  have nl: "next_limiter after_call = 1"
    using callModelTextRaw_extends(1) [of steady "fst first_run" "[]" "[HumanMessage ''hi'']" state0
        "Some ''plan''" "snd first_run" "fst (callModelTextRaw steady (fst first_run) [] [HumanMessage ''hi''] state0 (Some ''plan'') (snd first_run))" after_call]
    by (simp add: after_call_def extends_def first_run_def new_ctx_def world0_def)
  have p: "params ?c = params_limited"
    by (simp add: second_run_def new_ctx_def lib_limited_def mergeParams_def)
  have k: "request_key ?c (Some ''plan'') [HumanMessage ''hi again'']
      \<noteq> request_key (fst first_run) (Some ''plan'') [HumanMessage ''hi'']"
    using keys_differ
      request_key_params [of ?c "\<lparr>params = params_limited, tools = [], limiter = 0, signal = None\<rparr>"]
    by (simp add: p first_run_facts)
  have miss: "fst (cache_get (responseCache ?w) (nowMs ?w)
                 (request_key ?c (Some ''plan'') [HumanMessage ''hi again''])) = None"
    using k by (simp add: w after_call_facts cache_get_def)
  have reply: "invoke_reply steady (length (requests ?w)) = (5, Inr ok_message)"
    by (simp add: steady_def)
  note f = call_first_try [OF miss reply limited(6,7), where bound = "[]" and st = state0]
  note s = ensureRateLimit_spec [where c = ?c and r = 60 and st = state0 and w = ?w, OF limited(5)]
  have l: "limiters ?w (limiter ?c) = None" by (simp add: w limited)
  have e: "clock (ensureRateLimit ?c state0 ?w) = 1005"
      "new_events ?w (ensureRateLimit ?c state0 ?w) = []"
      "new_sleeps ?w (ensureRateLimit ?c state0 ?w) = []"
    using s(2-4) by (simp_all add: l w(1-5) interval_60 Let_def)
  have ev: "new_events ?w (snd (callModelTextRaw steady ?c [] [HumanMessage ''hi again''] state0 (Some ''plan'') ?w))
      = new_events ?w (ensureRateLimit ?c state0 ?w)
        @ new_events (ensureRateLimit ?c state0 ?w)
            (snd (callModelTextRaw steady ?c [] [HumanMessage ''hi again''] state0 (Some ''plan'') ?w))"
    using ensureRateLimit_events [of ?c state0 ?w] f(3) e(2)
    by (auto simp: new_events_def)
  have 1: "limiters ?w (limiter (fst first_run)) = Some 1000"
    by (simp add: w limited nl after_call_facts)
  have 5: "new_sleeps ?w (snd (callModelTextRaw steady ?c [] [HumanMessage ''hi again''] state0 (Some ''plan'') ?w)) = []"
    using f(4) e(3) by (simp add: new_sleeps_def)
  have 6: "of_kind RateLimitDelay (new_events ?w
        (snd (callModelTextRaw steady ?c [] [HumanMessage ''hi again''] state0 (Some ''plan'') ?w))) = []"
    by (simp add: ev e(2) f(3) of_kind_def call_end_event_def)
  have 7: "clock (snd (callModelTextRaw steady ?c [] [HumanMessage ''hi again''] state0 (Some ''plan'') ?w)) = 1010"
    using f(2) e(1) by simp
  show ?thesis using 1 l w(1) f(1) 5 6 7 by simp
qed

end
